theory Spec2Isabelle
  imports Main
begin

section \<open>JavaScript values\<close>

text \<open>
  Payloads are loosely typed objects. A value is a string, a number, a boolean, null or
  an opaque reference (a DOM event, a nested object). An object is the finite map from its
  property names to their values; the order in which \<^verbatim>\<open>JSON.stringify\<close> writes the
  properties is not part of the model.
\<close>

datatype jsval = JStr string | JNum int | JBool bool | JNull | JOpaque nat

type_synonym jsobj = "string \<rightharpoonup> jsval"

text \<open>
  The object spread \<^verbatim>\<open>{ ...a, ...b }\<close>: the properties of \<open>a\<close>, overridden by those of \<open>b\<close>.
\<close>

definition spread :: "jsobj \<Rightarrow> jsobj \<Rightarrow> jsobj" where
  "spread a b = a ++ b"

section \<open>The socket service (services/socket)\<close>

text \<open>
  The service holds a reference to one browser WebSocket, the handler registry, the
  reconnect counter and the connecting flag. The browser side is part of the state as
  well: every WebSocket ever constructed with its \<open>readyState\<close> (a socket is named by its
  index in construction order), and the number of pending \<open>setTimeout\<close> callbacks, all of
  which are \<^verbatim>\<open>() => this.connect()\<close>.

  A handler is a function object supplied by a caller. It is named by a number, and it
  either returns normally when called or throws. Calling it is recorded in the trace. A
  handler does not call back into the service.
\<close>

datatype readyState = CONNECTING | OPEN | CLOSING | CLOSED

datatype handler = Returns nat | Throws nat

record SocketService =
  ws :: "nat option"
  handlers :: "string \<rightharpoonup> handler list"
  reconnectAttempts :: nat
  isConnecting :: bool
  sockets :: "readyState list"
  timers :: nat

definition maxReconnectAttempts :: nat where
  "maxReconnectAttempts = 5"

definition reconnectDelay :: nat where
  "reconnectDelay = 3000"

text \<open>
  What the service does to the outside, in order. A console message carries its fixed text;
  the values interpolated into it are left out.
\<close>

datatype out =
    NewSocket nat                 \<comment> \<open>\<^verbatim>\<open>new WebSocket(url)\<close>\<close>
  | SocketClose nat               \<comment> \<open>\<^verbatim>\<open>ws.close()\<close>\<close>
  | SocketSend nat jsobj          \<comment> \<open>\<^verbatim>\<open>ws.send(JSON.stringify(frame))\<close>\<close>
  | SetTimeout nat                \<comment> \<open>\<^verbatim>\<open>setTimeout(() => this.connect(), delay)\<close>\<close>
  | Emitted string jsobj          \<comment> \<open>entry into \<^verbatim>\<open>emit(type, data)\<close>\<close>
  | Invoke handler jsobj          \<comment> \<open>\<^verbatim>\<open>handler(data)\<close>\<close>
  | ConsoleLog string
  | ConsoleWarn string
  | ConsoleError string

definition new_service :: SocketService where
  "new_service = \<lparr>ws = None, handlers = Map.empty, reconnectAttempts = 0,
     isConnecting = False, sockets = [], timers = 0\<rparr>"

text \<open>\<^verbatim>\<open>this.ws?.readyState\<close>: undefined when there is no socket.\<close>

definition ws_readyState :: "SocketService \<Rightarrow> readyState option" where
  "ws_readyState s =
     (case ws s of
        None \<Rightarrow> None
      | Some k \<Rightarrow> if k < length (sockets s) then Some (sockets s ! k) else None)"

definition isConnected :: "SocketService \<Rightarrow> bool" where
  "isConnected s = (ws_readyState s = Some OPEN)"

subsection \<open>The registry: on, the disposer, emit\<close>

text \<open>
  \<open>handlers\<close> is a \<^verbatim>\<open>Map<string, Set<MessageHandler>>\<close>. A JavaScript Set iterates in
  insertion order and adding a member again changes nothing.
\<close>

definition set_add :: "handler \<Rightarrow> handler list \<Rightarrow> handler list" where
  "set_add h hs = (if h \<in> set hs then hs else hs @ [h])"

definition set_delete :: "handler \<Rightarrow> handler list \<Rightarrow> handler list" where
  "set_delete h hs = filter (\<lambda>x. x \<noteq> h) hs"

definition on :: "string \<Rightarrow> handler \<Rightarrow> SocketService \<Rightarrow> SocketService" where
  "on t h s =
     (let hm = (if handlers s t = None then (handlers s)(t \<mapsto> []) else handlers s)
      in s\<lparr>handlers := hm(t \<mapsto> set_add h (the (hm t)))\<rparr>)"

text \<open>The function returned by \<open>on\<close>.\<close>

definition unsubscribe :: "string \<Rightarrow> handler \<Rightarrow> SocketService \<Rightarrow> SocketService" where
  "unsubscribe t h s =
     (case handlers s t of
        None \<Rightarrow> s
      | Some hs \<Rightarrow> s\<lparr>handlers := (handlers s)(t \<mapsto> set_delete h hs)\<rparr>)"

text \<open>
  \<^verbatim>\<open>set.forEach((handler) => handler(data))\<close>: the members are called in order; a member that
  throws ends the iteration, and the exception leaves \<open>forEach\<close>. The result is the calls
  made and whether an exception was thrown.
\<close>

fun for_each :: "handler list \<Rightarrow> jsobj \<Rightarrow> out list \<times> bool" where
  "for_each [] d = ([], False)"
| "for_each (Returns i # hs) d =
     (case for_each hs d of (os, thrown) \<Rightarrow> (Invoke (Returns i) d # os, thrown))"
| "for_each (Throws i # hs) d = ([Invoke (Throws i) d], True)"

text \<open>\<^verbatim>\<open>this.handlers.get(type)?.forEach(...)\<close>: nothing happens when the tag has no Set.\<close>

definition get_for_each :: "SocketService \<Rightarrow> string \<Rightarrow> jsobj \<Rightarrow> out list \<times> bool" where
  "get_for_each s t d = (case handlers s t of None \<Rightarrow> ([], False) | Some hs \<Rightarrow> for_each hs d)"

text \<open>
  \<open>emit\<close> has no \<^verbatim>\<open>try\<close>: an exception thrown by a handler of the tag skips the replay to
  the \<open>message\<close> handlers and leaves \<open>emit\<close>.
\<close>

definition emit :: "SocketService \<Rightarrow> string \<Rightarrow> jsobj \<Rightarrow> out list \<times> bool" where
  "emit s t d =
     (case get_for_each s t d of
        (o1, True) \<Rightarrow> (Emitted t d # o1, True)
      | (o1, False) \<Rightarrow>
          if t \<noteq> ''message''
          then (case get_for_each s ''message'' d of (o2, thrown) \<Rightarrow> (Emitted t d # o1 @ o2, thrown))
          else (Emitted t d # o1, False))"

subsection \<open>connect, disconnect, send\<close>

definition connect :: "SocketService \<Rightarrow> SocketService \<times> out list" where
  "connect s =
     (if ws_readyState s = Some OPEN \<or> isConnecting s then (s, [])
      else (s\<lparr>isConnecting := True,
               ws := Some (length (sockets s)),
               sockets := sockets s @ [CONNECTING]\<rparr>,
            [ConsoleLog ''Connecting to WebSocket:'', NewSocket (length (sockets s))]))"

text \<open>
  \<^verbatim>\<open>ws.close()\<close> on a socket that is connecting or open starts the closing handshake; on a
  closing or closed socket it does nothing. The close event comes later.
\<close>

definition close_socket :: "nat \<Rightarrow> readyState list \<Rightarrow> readyState list" where
  "close_socket k rs =
     (if k < length rs \<and> (rs ! k = CONNECTING \<or> rs ! k = OPEN) then rs[k := CLOSING] else rs)"

definition disconnect :: "SocketService \<Rightarrow> SocketService \<times> out list" where
  "disconnect s =
     (case ws s of
        None \<Rightarrow> (s, [])
      | Some k \<Rightarrow> (s\<lparr>sockets := close_socket k (sockets s), ws := None\<rparr>, [SocketClose k]))"

definition send :: "string \<Rightarrow> jsobj \<Rightarrow> SocketService \<Rightarrow> SocketService \<times> out list" where
  "send t payload s =
     (if ws_readyState s = Some OPEN
      then (s, [SocketSend (the (ws s)) (spread [''type'' \<mapsto> JStr t] payload)])
      else (s, [ConsoleWarn ''WebSocket not connected, cannot send message'']))"

definition subscribeToProfile :: "string \<Rightarrow> SocketService \<Rightarrow> SocketService \<times> out list" where
  "subscribeToProfile profileId s = send ''subscribe:profile'' [''profile_id'' \<mapsto> JStr profileId] s"

definition resumeJob :: "string \<Rightarrow> SocketService \<Rightarrow> SocketService \<times> out list" where
  "resumeJob jobId s = send ''job:resume'' [''job_id'' \<mapsto> JStr jobId] s"

subsection \<open>The socket's event handlers\<close>

text \<open>
  An exception that leaves \<open>emit\<close> leaves the event handler that called it: in \<open>onopen\<close> and
  \<open>onerror\<close> nothing follows the call, in \<open>onclose\<close> the reconnect is then not scheduled, and
  in \<open>onmessage\<close> the \<^verbatim>\<open>catch\<close> meant for the parser logs it.
\<close>

definition onopen :: "SocketService \<Rightarrow> SocketService \<times> out list" where
  "onopen s =
     (let s1 = s\<lparr>isConnecting := False, reconnectAttempts := 0\<rparr>
      in (s1, ConsoleLog ''WebSocket connected'' # fst (emit s1 ''connected'' Map.empty)))"

definition onclose :: "SocketService \<Rightarrow> SocketService \<times> out list" where
  "onclose s =
     (let s1 = s\<lparr>isConnecting := False, ws := None\<rparr>;
          o1 = ConsoleLog ''WebSocket disconnected'' # fst (emit s1 ''disconnected'' Map.empty)
      in if snd (emit s1 ''disconnected'' Map.empty) then (s1, o1)
         else if reconnectAttempts s1 < maxReconnectAttempts
         then (s1\<lparr>reconnectAttempts := reconnectAttempts s1 + 1, timers := timers s1 + 1\<rparr>,
               o1 @ [ConsoleLog ''Reconnecting'', SetTimeout reconnectDelay])
         else (s1, o1))"

definition onerror :: "jsval \<Rightarrow> SocketService \<Rightarrow> SocketService \<times> out list" where
  "onerror err s =
     (s, ConsoleError ''WebSocket error:'' # fst (emit s ''error'' [''error'' \<mapsto> err]))"

text \<open>
  An inbound text frame, after \<^verbatim>\<open>JSON.parse\<close>: either parsing (or reading \<open>.type\<close> of the
  result) throws, or there is an object whose \<open>type\<close> is a non-empty string, or an object
  whose \<open>type\<close> is missing or falsy.
\<close>

datatype inbound = Unparsable | Tagged string jsobj | Untagged jsobj

definition caught :: "out list \<times> bool \<Rightarrow> out list" where
  "caught r =
     (if snd r then fst r @ [ConsoleError ''Failed to parse WebSocket message:''] else fst r)"

definition onmessage :: "inbound \<Rightarrow> SocketService \<Rightarrow> SocketService \<times> out list" where
  "onmessage m s =
     (case m of
        Unparsable \<Rightarrow> (s, [ConsoleError ''Failed to parse WebSocket message:''])
      | Tagged t d \<Rightarrow> (s, caught (emit s t d))
      | Untagged d \<Rightarrow> (s, caught (emit s ''message'' d)))"

subsection \<open>Event sequences\<close>

text \<open>
  What can happen to the service: a caller invokes one of its methods, the browser
  delivers an event of one socket, or a reconnect timer fires. The browser delivers
  \<open>open\<close> only to a connecting socket, \<open>message\<close> only to an open one, \<open>close\<close> once to a
  socket that is not yet closed. When the server starts the closing handshake of an open
  socket, the browser sets its \<open>readyState\<close> to closing, without an event (\<open>SockClosing\<close>);
  the close event follows later. An event that the browser cannot deliver in the current
  state leaves everything as it is.
\<close>

datatype event =
    Connect
  | Disconnect
  | Send string jsobj
  | On string handler
  | Unsubscribe string handler
  | SockOpen nat
  | SockClosing nat
  | SockClose nat
  | SockError nat jsval
  | SockMessage nat inbound
  | TimerFire

definition sock_state :: "SocketService \<Rightarrow> nat \<Rightarrow> readyState option" where
  "sock_state s k = (if k < length (sockets s) then Some (sockets s ! k) else None)"

fun enabled :: "SocketService \<Rightarrow> event \<Rightarrow> bool" where
  "enabled s (SockOpen k) = (sock_state s k = Some CONNECTING)"
| "enabled s (SockClosing k) = (sock_state s k = Some OPEN)"
| "enabled s (SockClose k) = (sock_state s k \<noteq> None \<and> sock_state s k \<noteq> Some CLOSED)"
| "enabled s (SockError k err) = (sock_state s k \<noteq> None \<and> sock_state s k \<noteq> Some CLOSED)"
| "enabled s (SockMessage k m) = (sock_state s k = Some OPEN)"
| "enabled s TimerFire = (0 < timers s)"
| "enabled s e = True"

fun fire :: "SocketService \<Rightarrow> event \<Rightarrow> SocketService \<times> out list" where
  "fire s Connect = connect s"
| "fire s Disconnect = disconnect s"
| "fire s (Send t p) = send t p s"
| "fire s (On t h) = (on t h s, [])"
| "fire s (Unsubscribe t h) = (unsubscribe t h s, [])"
| "fire s (SockOpen k) = onopen (s\<lparr>sockets := (sockets s)[k := OPEN]\<rparr>)"
| "fire s (SockClosing k) = (s\<lparr>sockets := (sockets s)[k := CLOSING]\<rparr>, [])"
| "fire s (SockClose k) = onclose (s\<lparr>sockets := (sockets s)[k := CLOSED]\<rparr>)"
| "fire s (SockError k err) = onerror err s"
| "fire s (SockMessage k m) = onmessage m s"
| "fire s TimerFire = connect (s\<lparr>timers := timers s - 1\<rparr>)"

definition step :: "SocketService \<Rightarrow> event \<Rightarrow> SocketService \<times> out list" where
  "step s e = (if enabled s e then fire s e else (s, []))"

fun exec :: "SocketService \<Rightarrow> event list \<Rightarrow> SocketService \<times> out list" where
  "exec s [] = (s, [])"
| "exec s (e # es) =
     (case step s e of (s1, o1) \<Rightarrow> (case exec s1 es of (s2, o2) \<Rightarrow> (s2, o1 @ o2)))"

subsection \<open>Registration sequences\<close>

text \<open>
  The handlers registered under a tag after a sequence of events, in registration order,
  read off the sequence itself: a registration counts when no later disposal cancels it,
  it puts the handler before everything registered later, and registering a handler that
  is registered already changes nothing.
\<close>

fun is_unsubscribe :: "string \<Rightarrow> handler \<Rightarrow> event \<Rightarrow> bool" where
  "is_unsubscribe t h (Unsubscribe t' h') = (t' = t \<and> h' = h)"
| "is_unsubscribe t h e = False"

fun registered_under :: "string \<Rightarrow> event list \<Rightarrow> handler list" where
  "registered_under t [] = []"
| "registered_under t (On t' h # es) =
     (if t' = t \<and> \<not> list_ex (is_unsubscribe t h) es
      then h # filter (\<lambda>x. x \<noteq> h) (registered_under t es)
      else registered_under t es)"
| "registered_under t (e # es) = registered_under t es"

text \<open>
  Of a list of handlers called in order, those that are reached: all up to and including the
  first that throws.
\<close>

fun throws :: "handler \<Rightarrow> bool" where
  "throws (Throws i) = True"
| "throws (Returns i) = False"

fun called :: "handler list \<Rightarrow> handler list" where
  "called [] = []"
| "called (h # hs) = (if throws h then [h] else h # called hs)"

text \<open>For the proofs: the Set of a tag, and what one event and a sequence do to it.\<close>

definition hs_of :: "SocketService \<Rightarrow> string \<Rightarrow> handler list" where
  "hs_of s t = (case handlers s t of None \<Rightarrow> [] | Some l \<Rightarrow> l)"

fun apply_reg :: "string \<Rightarrow> event \<Rightarrow> handler list \<Rightarrow> handler list" where
  "apply_reg t (On t' h) hs = (if t' = t then set_add h hs else hs)"
| "apply_reg t (Unsubscribe t' h) hs = (if t' = t then set_delete h hs else hs)"
| "apply_reg t e hs = hs"

definition still :: "string \<Rightarrow> event list \<Rightarrow> handler list \<Rightarrow> handler list" where
  "still t es hs = filter (\<lambda>x. \<not> list_ex (is_unsubscribe t x) es) hs"

text \<open>
  Two registries: one in which the first handler of a tag throws, and one built with
  registrations, a disposal and repeated registrations, in which every handler returns.
\<close>

definition throwing_registry :: "event list" where
  "throwing_registry = [On ''job_completed'' (Throws 1), On ''job_completed'' (Returns 2),
     On ''message'' (Returns 3)]"

definition mixed_registry :: "event list" where
  "mixed_registry = [On ''job_completed'' (Returns 1), On ''message'' (Returns 2),
     On ''job_completed'' (Returns 3), Unsubscribe ''job_completed'' (Returns 1),
     On ''job_completed'' (Returns 3), On ''job_completed'' (Returns 1)]"

subsection \<open>Reading a trace\<close>

text \<open>
  The number of reconnects scheduled in a trace, and the number of close events that the
  browser delivers during a run.
\<close>

fun is_timeout :: "out \<Rightarrow> bool" where
  "is_timeout (SetTimeout d) = True"
| "is_timeout x = False"

definition scheduled :: "out list \<Rightarrow> nat" where
  "scheduled os = length (filter is_timeout os)"

fun is_close :: "event \<Rightarrow> bool" where
  "is_close (SockClose k) = True"
| "is_close e = False"

fun is_open :: "event \<Rightarrow> bool" where
  "is_open (SockOpen k) = True"
| "is_open e = False"

fun delivered_closes :: "SocketService \<Rightarrow> event list \<Rightarrow> nat" where
  "delivered_closes s [] = 0"
| "delivered_closes s (e # es) =
     (if is_close e \<and> enabled s e then 1 else 0) + delivered_closes (fst (step s e)) es"

text \<open>
  Six closes in a row: the first connection fails, and so does every reconnect.
\<close>

definition six_closes :: "event list" where
  "six_closes = [Connect, SockClose 0, TimerFire, SockClose 1, TimerFire, SockClose 2,
     TimerFire, SockClose 3, TimerFire, SockClose 4, TimerFire, SockClose 5]"

text \<open>No registered handler throws; the event registers a handler that throws.\<close>

definition all_return :: "SocketService \<Rightarrow> bool" where
  "all_return s = (\<forall>t. \<not> list_ex throws (hs_of s t))"

fun registers_thrower :: "event \<Rightarrow> bool" where
  "registers_thrower (On t h) = throws h"
| "registers_thrower e = False"

text \<open>
  \<open>no_double_connected c os\<close>: in the trace \<open>os\<close>, started when the last report was
  \<open>connected\<close> (\<open>c\<close>) or not, no \<open>connected\<close> event is emitted while the last report is still
  \<open>connected\<close>. \<open>connected_after\<close> is the last report at the end of the trace.
\<close>

fun connected_after :: "bool \<Rightarrow> out list \<Rightarrow> bool" where
  "connected_after c [] = c"
| "connected_after c (Emitted t d # os) =
     connected_after (if t = ''connected'' then True else if t = ''disconnected'' then False else c) os"
| "connected_after c (x # os) = connected_after c os"

fun no_double_connected :: "bool \<Rightarrow> out list \<Rightarrow> bool" where
  "no_double_connected c [] = True"
| "no_double_connected c (Emitted t d # os) =
     (if t = ''connected'' then \<not> c \<and> no_double_connected True os
      else if t = ''disconnected'' then no_double_connected False os
      else no_double_connected c os)"
| "no_double_connected c (x # os) = no_double_connected c os"

text \<open>
  The synthetic tags \<open>connected\<close> and \<open>disconnected\<close> are generated locally; an inbound frame
  carrying one of them would be dispatched like the local event.
\<close>

fun synthetic_on_wire :: "event \<Rightarrow> bool" where
  "synthetic_on_wire (SockMessage k (Tagged t d)) = (t = ''connected'' \<or> t = ''disconnected'')"
| "synthetic_on_wire e = False"

text \<open>
  \<open>opens_socket s e\<close>: the event runs \<open>connect\<close> and \<open>connect\<close> passes its guard, so a new
  WebSocket is constructed. \<open>no_overlap s es\<close>: along the run, that never happens while some
  socket is closing, that is, closed by \<open>disconnect\<close> or by the server's closing handshake
  and still waiting for its close event. \<open>starts_closing\<close>: the events that put a socket
  into that state.
\<close>

fun runs_connect :: "SocketService \<Rightarrow> event \<Rightarrow> bool" where
  "runs_connect s Connect = True"
| "runs_connect s TimerFire = (0 < timers s)"
| "runs_connect s e = False"

definition opens_socket :: "SocketService \<Rightarrow> event \<Rightarrow> bool" where
  "opens_socket s e =
     (runs_connect s e \<and> ws_readyState s \<noteq> Some OPEN \<and> \<not> isConnecting s)"

fun starts_closing :: "event \<Rightarrow> bool" where
  "starts_closing Disconnect = True"
| "starts_closing (SockClosing k) = True"
| "starts_closing e = False"

fun no_overlap :: "SocketService \<Rightarrow> event list \<Rightarrow> bool" where
  "no_overlap s [] = True"
| "no_overlap s (e # es) =
     ((opens_socket s e \<longrightarrow> CLOSING \<notin> set (sockets s)) \<and> no_overlap (fst (step s e)) es)"

text \<open>
  The invariant of such runs: the referenced socket is the only one that is not closed, and
  while it is connecting or open the connecting flag and the last report agree with its
  \<open>readyState\<close>; with no referenced socket, every socket is closed or closing.
\<close>

definition single_live :: "SocketService \<Rightarrow> bool \<Rightarrow> bool" where
  "single_live s c =
     (case ws s of
        Some k \<Rightarrow>
          k < length (sockets s)
          \<and> (sockets s ! k = CONNECTING \<and> isConnecting s \<and> \<not> c
               \<or> sockets s ! k = OPEN \<and> \<not> isConnecting s \<and> c
               \<or> sockets s ! k = CLOSING)
          \<and> (\<forall>j < length (sockets s). j \<noteq> k \<longrightarrow> sockets s ! j = CLOSED)
      | None \<Rightarrow>
          (\<forall>j < length (sockets s). sockets s ! j = CLOSED \<or> sockets s ! j = CLOSING)
          \<and> (CLOSING \<notin> set (sockets s) \<longrightarrow> \<not> isConnecting s \<and> \<not> c))"

definition never_open :: "SocketService \<Rightarrow> bool" where
  "never_open s = (OPEN \<notin> set (sockets s))"

text \<open>
  Sample states: after a successful open; after a failed first connection; after the
  reconnect timer of that failure has fired; after that failure, an external \<open>connect\<close> and
  a successful open, with the reconnect timer still pending; and after a run in which a
  second socket is opened while the first is closing, and opens after the first has closed.
\<close>

definition opened :: SocketService where
  "opened = fst (exec new_service [Connect, SockOpen 0])"

definition failed_once :: SocketService where
  "failed_once = fst (exec new_service [Connect, SockClose 0])"

definition retrying :: SocketService where
  "retrying = fst (exec new_service [Connect, SockClose 0, TimerFire])"


definition orphan_run :: "event list" where
  "orphan_run = [Connect, SockOpen 0, Disconnect, Connect, SockClose 0, SockOpen 1]"

definition orphaned :: SocketService where
  "orphaned = fst (exec new_service orphan_run)"

section \<open>The notification poller (hooks/useNotificationPoller)\<close>

text \<open>
  \<open>SystemNotification\<close> as the API module declares it. The priority is the closed union
  \<^verbatim>\<open>'low' | 'normal' | 'high' | 'urgent'\<close>; an optional field is an \<open>option\<close>.
\<close>

datatype priority = low | normal | high | urgent

record SystemNotification =
  type :: string
  title :: string
  message :: string
  job_id :: "string option"
  profile_id :: "string option"
  priority :: priority
  data :: "jsobj option"
  action_url :: "string option"
  requires_action :: bool
  created_at :: string

text \<open>
  A call of the toast library: which of its entry points and decorations (\<^verbatim>\<open>toast.error\<close>,
  \<^verbatim>\<open>toast\<close> with the lock icon, \<^verbatim>\<open>toast\<close> with the warning icon, \<^verbatim>\<open>toast.success\<close>, plain
  \<^verbatim>\<open>toast\<close>), the message and the duration in milliseconds.
\<close>

datatype toast_kind = error_toast | lock_icon | warning_icon | success_toast | plain_toast

datatype toast = Toast toast_kind string nat

text \<open>
  The dedup key, \<^verbatim>\<open>`${type}-${created_at}-${job_id || ''}`\<close>: an absent \<open>job_id\<close> and an empty
  one both give the empty string.
\<close>

definition notificationKey :: "SystemNotification \<Rightarrow> string" where
  "notificationKey n =
     type n @ ''-'' @ created_at n @ ''-'' @ (case job_id n of None \<Rightarrow> [] | Some j \<Rightarrow> j)"

text \<open>The \<^verbatim>\<open>switch (notification.priority)\<close> of \<open>showNotification\<close>.\<close>

definition present :: "SystemNotification \<Rightarrow> toast list" where
  "present n =
     (let msg = title n @ '': '' @ message n in
      case priority n of
        urgent \<Rightarrow>
          (if type n = ''error'' \<or> type n = ''job_failed'' then [Toast error_toast msg 8000]
           else if type n = ''captcha_detected'' then [Toast lock_icon msg 10000]
           else [Toast warning_icon msg 6000])
      | high \<Rightarrow>
          (if type n = ''error'' \<or> type n = ''job_failed'' then [Toast error_toast msg 8000]
           else if type n = ''captcha_detected'' then [Toast lock_icon msg 10000]
           else [Toast warning_icon msg 6000])
      | normal \<Rightarrow>
          (if type n = ''job_completed'' \<or> type n = ''submit_ready'' then [Toast success_toast msg 5000]
           else [Toast plain_toast msg 4000])
      | low \<Rightarrow> [])"

text \<open>
  The seen-set is a JavaScript Set of strings, kept here as the list of its members in
  insertion order. \<^verbatim>\<open>Array.from(set).slice(-50)\<close> keeps the last fifty members.
\<close>

definition keep_recent :: "string list \<Rightarrow> string list" where
  "keep_recent arr = (if length arr > 100 then drop (length arr - 50) arr else arr)"

text \<open>
  \<open>showNotification\<close> returns the new seen-set and the toasts it raised, each paired with
  the notification it was raised for.
\<close>

definition showNotification ::
  "string list \<Rightarrow> SystemNotification \<Rightarrow> string list \<times> (SystemNotification \<times> toast) list" where
  "showNotification shown n =
     (let k = notificationKey n in
      if k \<in> set shown then (shown, [])
      else (keep_recent (shown @ [k]), map (Pair n) (present n)))"

record poller =
  lastSeenRef :: "string option"
  shownNotificationsRef :: "string list"

definition new_poller :: poller where
  "new_poller = \<lparr>lastSeenRef = None, shownNotificationsRef = []\<rparr>"

text \<open>One poll: the fetch fails (the \<^verbatim>\<open>catch\<close> swallows it) or returns the notifications.\<close>

datatype response = FetchFailed | Fetched "SystemNotification list"

fun for_notifications ::
  "string list \<Rightarrow> SystemNotification list \<Rightarrow> string list \<times> (SystemNotification \<times> toast) list" where
  "for_notifications shown [] = (shown, [])"
| "for_notifications shown (n # ns) =
     (if priority n = high \<or> priority n = urgent
      then (case showNotification shown n of
              (shown1, t1) \<Rightarrow>
                (case for_notifications shown1 ns of (shown2, t2) \<Rightarrow> (shown2, t1 @ t2)))
      else for_notifications shown ns)"

definition pollNotifications ::
  "poller \<Rightarrow> response \<Rightarrow> poller \<times> (SystemNotification \<times> toast) list" where
  "pollNotifications p r =
     (case r of
        FetchFailed \<Rightarrow> (p, [])
      | Fetched ns \<Rightarrow>
          (if length ns > 0
           then (case for_notifications (shownNotificationsRef p) ns of
                   (shown, ts) \<Rightarrow>
                     (\<lparr>lastSeenRef = Some (created_at (hd ns)), shownNotificationsRef = shown\<rparr>, ts))
           else (p, [])))"

fun ticks :: "poller \<Rightarrow> response list \<Rightarrow> poller \<times> (SystemNotification \<times> toast) list" where
  "ticks p [] = (p, [])"
| "ticks p (r # rs) =
     (case pollNotifications p r of
        (p1, t1) \<Rightarrow> (case ticks p1 rs of (p2, t2) \<Rightarrow> (p2, t1 @ t2)))"

subsection \<open>Reading a run of the poller\<close>

definition notifications_of :: "response \<Rightarrow> SystemNotification list" where
  "notifications_of r = (case r of FetchFailed \<Rightarrow> [] | Fetched ns \<Rightarrow> ns)"

text \<open>The priority filter of the polling loop.\<close>

definition toasted :: "SystemNotification \<Rightarrow> bool" where
  "toasted n = (priority n = high \<or> priority n = urgent)"

text \<open>
  A sequence of \<open>showNotification\<close> calls: the seen-set at the end, and the keys on which
  \<^verbatim>\<open>shownNotificationsRef.current.add\<close> was executed, in order.
\<close>

fun show_all :: "string list \<Rightarrow> SystemNotification list \<Rightarrow> string list" where
  "show_all shown [] = shown"
| "show_all shown (n # ns) = show_all (fst (showNotification shown n)) ns"

fun insertions :: "string list \<Rightarrow> SystemNotification list \<Rightarrow> string list" where
  "insertions shown [] = []"
| "insertions shown (n # ns) =
     (if notificationKey n \<in> set shown then [] else [notificationKey n])
       @ insertions (fst (showNotification shown n)) ns"

text \<open>The number of toasts raised for notifications with a given dedup key.\<close>

definition alerts_for :: "string \<Rightarrow> (SystemNotification \<times> toast) list \<Rightarrow> nat" where
  "alerts_for k ts = length (filter (\<lambda>a. notificationKey (fst a) = k) ts)"

text \<open>The dedup keys of the notifications that pass the priority filter.\<close>

definition toasted_keys :: "SystemNotification list \<Rightarrow> string set" where
  "toasted_keys ns = notificationKey ` {n \<in> set ns. toasted n}"

subsection \<open>Sample notifications\<close>

text \<open>
  A family of high-priority notifications with pairwise different keys, and the run in
  which each of the first 101 arrives in a poll of its own and the first one then arrives
  again.
\<close>

definition mk :: "nat \<Rightarrow> SystemNotification" where
  "mk i = \<lparr>type = ''error'', title = ''t'', message = ''m'', job_id = None, profile_id = None,
     priority = high, data = None, action_url = None, requires_action = False,
     created_at = replicate i (CHR ''x'')\<rparr>"

definition tick_of :: "nat \<Rightarrow> response" where
  "tick_of i = Fetched [mk i]"

definition evicted_ticks :: "response list" where
  "evicted_ticks = map tick_of ([0..<101] @ [0])"

text \<open>Two notifications that differ only in \<open>job_id\<close> (and text): absent, and empty.\<close>

definition absent_job :: SystemNotification where
  "absent_job = \<lparr>type = ''error'', title = ''Job failed'', message = ''first'',
     job_id = None, profile_id = None, priority = high, data = None, action_url = None,
     requires_action = False, created_at = ''2024-01-01T00:00:00''\<rparr>"

definition empty_job :: SystemNotification where
  "empty_job = \<lparr>type = ''error'', title = ''Job failed'', message = ''second'',
     job_id = Some [], profile_id = None, priority = high, data = None, action_url = None,
     requires_action = False, created_at = ''2024-01-01T00:00:00''\<rparr>"

text \<open>Two notifications whose \<open>type\<close> and \<open>created_at\<close> differ but join to the same text.\<close>

definition dash_in_type :: SystemNotification where
  "dash_in_type = \<lparr>type = ''a-b'', title = ''x'', message = ''y'',
     job_id = Some ''J1'', profile_id = None, priority = urgent, data = None, action_url = None,
     requires_action = False, created_at = ''c''\<rparr>"

definition dash_in_created_at :: SystemNotification where
  "dash_in_created_at = \<lparr>type = ''a'', title = ''x'', message = ''y'',
     job_id = Some ''J1'', profile_id = None, priority = urgent, data = None, action_url = None,
     requires_action = False, created_at = ''b-c''\<rparr>"

definition info_note :: SystemNotification where
  "info_note = \<lparr>type = ''info'', title = ''Heads up'', message = ''queued'',
     job_id = Some ''J2'', profile_id = None, priority = normal, data = None, action_url = None,
     requires_action = False, created_at = ''2024-01-01T00:00:05''\<rparr>"

section \<open>The job store (stores/jobStore)\<close>

text \<open>
  \<open>Job\<close> and \<open>JobLog\<close> as the API module declares them. The selected job is a \<open>Job\<close> that may
  carry its logs. Field names that are taken already carry a prime or a prefix.
\<close>

record Job =
  id' :: string
  profile_id' :: string
  url :: string
  url_hash :: string
  company_name :: "string option"
  job_title :: "string option"
  location :: "string option"
  salary_range :: "string option"
  status :: string
  error_message :: "string option"
  confirmation_reference :: "string option"
  retry_count :: int
  max_retries :: int
  priority' :: int
  metadata :: "jsobj option"
  created_at' :: string
  updated_at :: string
  started_at :: "string option"
  applied_at :: "string option"

record JobLog =
  log_id :: string
  action :: string
  details :: "jsobj option"
  screenshot_path :: "string option"
  log_created_at :: string

record SelectedJob = Job +
  logs :: "JobLog list option"

record Pagination =
  page :: int
  pageSize :: int
  total :: int
  totalPages :: int

record Filters =
  profileId :: "string option"
  status_filter :: "string list option"

record JobState =
  jobs :: "Job list"
  selectedJob :: "SelectedJob option"
  isLoading :: bool
  error :: "string option"
  pagination :: Pagination
  filters :: Filters

text \<open>
  \<open>updateJobStatus\<close>, the store's patch operation for socket updates. The store's \<open>set\<close>
  merges the two fields it is given into the state; \<^verbatim>\<open>{ ...j, status }\<close> is \<open>j\<close> with \<open>status\<close>
  replaced.
\<close>

definition updateJobStatus :: "string \<Rightarrow> string \<Rightarrow> JobState \<Rightarrow> JobState" where
  "updateJobStatus i st state =
     state\<lparr>jobs := map (\<lambda>j. if id' j = i then j\<lparr>status := st\<rparr> else j) (jobs state),
           selectedJob :=
             (case selectedJob state of
                None \<Rightarrow> None
              | Some sj \<Rightarrow> if id' sj = i then Some (sj\<lparr>status := st\<rparr>) else Some sj)\<rparr>"

subsection \<open>A sample store\<close>

definition job_J1 :: Job where
  "job_J1 = \<lparr>id' = ''J1'', profile_id' = ''P1'', url = ''https://example.org/a'', url_hash = ''h1'',
     company_name = Some ''Acme'', job_title = Some ''Engineer'', location = None,
     salary_range = None, status = ''in_progress'', error_message = None,
     confirmation_reference = None, retry_count = 1, max_retries = 3, priority' = 0,
     metadata = None, created_at' = ''2024-01-01'', updated_at = ''2024-01-02'',
     started_at = Some ''2024-01-02'', applied_at = None\<rparr>"

definition job_J2 :: Job where
  "job_J2 = job_J1\<lparr>id' := ''J2'', url := ''https://example.org/b'', status := ''queued''\<rparr>"

definition selected_J1 :: SelectedJob where
  "selected_J1 = Job.extend job_J1 (SelectedJob.fields (Some []))"

definition store2 :: JobState where
  "store2 = \<lparr>jobs = [job_J1, job_J2], selectedJob = Some selected_J1, isLoading = False, error = None,
     pagination = \<lparr>page = 1, pageSize = 20, total = 2, totalPages = 1\<rparr>,
     filters = \<lparr>profileId = None, status_filter = None\<rparr>\<rparr>"

section \<open>Properties of the socket service\<close>

subsection \<open>Running a sequence of events\<close>

lemma exec_Cons_snd:
  "snd (exec s (e # es)) = snd (step s e) @ snd (exec (fst (step s e)) es)"
  by (simp split: prod.splits)

lemma exec_Cons_fst:
  "fst (exec s (e # es)) = fst (exec (fst (step s e)) es)"
  by (simp split: prod.splits)


lemma opened_eq:
  "opened = \<lparr>ws = Some 0, handlers = Map.empty, reconnectAttempts = 0,
     isConnecting = False, sockets = [OPEN], timers = 0\<rparr>"
  by (simp add: opened_def new_service_def step_def connect_def onopen_def ws_readyState_def
        sock_state_def Let_def)

lemma failed_once_eq:
  "failed_once = \<lparr>ws = None, handlers = Map.empty, reconnectAttempts = 1,
     isConnecting = False, sockets = [CLOSED], timers = 1\<rparr>"
  by (simp add: failed_once_def new_service_def step_def connect_def onclose_def ws_readyState_def
        sock_state_def Let_def maxReconnectAttempts_def emit_def get_for_each_def)

lemma retrying_eq:
  "retrying = \<lparr>ws = Some 1, handlers = Map.empty, reconnectAttempts = 1,
     isConnecting = True, sockets = [CLOSED, CONNECTING], timers = 0\<rparr>"
  by (simp add: retrying_def new_service_def step_def connect_def onclose_def ws_readyState_def
        sock_state_def Let_def maxReconnectAttempts_def emit_def get_for_each_def)

subsection \<open>Dispatch\<close>

lemma set_add_mem: "h \<in> set hs \<Longrightarrow> set_add h hs = hs"
  by (simp add: set_add_def)

lemma set_add_new: "h \<notin> set hs \<Longrightarrow> set_add h hs = hs @ [h]"
  by (simp add: set_add_def)

lemma handlers_connect: "handlers (fst (connect s)) = handlers s"
  by (simp add: connect_def)

lemma handlers_disconnect: "handlers (fst (disconnect s)) = handlers s"
  by (simp add: disconnect_def split: option.splits)

lemma handlers_onopen: "handlers (fst (onopen s)) = handlers s"
  by (simp add: onopen_def Let_def)

lemma handlers_onclose: "handlers (fst (onclose s)) = handlers s"
  by (simp add: onclose_def Let_def)

lemma handlers_onmessage: "handlers (fst (onmessage m s)) = handlers s"
  by (cases m) (simp_all add: onmessage_def)

lemma hs_of_on: "hs_of (on t h s) t' = (if t' = t then set_add h (hs_of s t) else hs_of s t')"
  by (auto simp: hs_of_def on_def Let_def split: option.splits)

lemma hs_of_unsubscribe:
  "hs_of (unsubscribe t h s) t' = (if t' = t then set_delete h (hs_of s t) else hs_of s t')"
  by (auto simp: hs_of_def unsubscribe_def set_delete_def split: option.splits)

lemma hs_of_step: "hs_of (fst (step s e)) t = apply_reg t e (hs_of s t)"
proof (cases "enabled s e")
  case False
  then show ?thesis by (cases e) (auto simp: step_def)
next
  case True
  show ?thesis
  proof (cases e)
    case (On t' h)
    then show ?thesis by (simp add: step_def hs_of_on)
  next
    case (Unsubscribe t' h)
    then show ?thesis by (simp add: step_def hs_of_unsubscribe)
  qed (use True in \<open>simp_all add: step_def hs_of_def handlers_connect handlers_disconnect
         handlers_onopen handlers_onclose handlers_onmessage send_def onerror_def\<close>)
qed

lemma hs_of_exec: "hs_of (fst (exec s es)) t = fold (apply_reg t) es (hs_of s t)"
  by (induction es arbitrary: s) (simp_all add: exec_Cons_fst hs_of_step del: exec.simps(2))

lemma still_On: "still t (On t' h # es) hs = still t es hs"
  by (simp add: still_def)

lemma fold_apply_reg:
  "fold (apply_reg t) es hs =
     still t es hs @ filter (\<lambda>x. x \<notin> set (still t es hs)) (registered_under t es)"
proof (induction es arbitrary: hs)
  case Nil
  then show ?case by (simp add: still_def)
next
  case (Cons e es)
  show ?case
  proof (cases e)
    case (On t' h)
    show ?thesis
    proof (cases "t' = t")
      case False
      with On show ?thesis by (simp add: Cons.IH still_def)
    next
      case True
      note st = still_On
      show ?thesis
      proof (cases "h \<in> set hs")
        case mem: True
        show ?thesis
        proof (cases "list_ex (is_unsubscribe t h) es")
          case True
          with mem \<open>t' = t\<close> On show ?thesis
            by (simp add: set_add_mem Cons.IH st)
        next
          case False
          with mem have "h \<in> set (still t es hs)" by (simp add: still_def)
          then have "filter (\<lambda>x. x \<noteq> h \<and> x \<notin> set (still t es hs)) (registered_under t es)
                    = filter (\<lambda>x. x \<notin> set (still t es hs)) (registered_under t es)"
            by (intro filter_cong) auto
          with False mem \<open>t' = t\<close> On \<open>h \<in> set (still t es hs)\<close> show ?thesis
            by (simp add: set_add_mem Cons.IH st)
        qed
      next
        case new: False
        show ?thesis
        proof (cases "list_ex (is_unsubscribe t h) es")
          case True
          then have "still t es (hs @ [h]) = still t es hs" by (simp add: still_def)
          with True new \<open>t' = t\<close> On show ?thesis
            by (simp add: set_add_new Cons.IH st)
        next
          case False
          then have s2: "still t es (hs @ [h]) = still t es hs @ [h]" by (simp add: still_def)
          from new have nm: "h \<notin> set (still t es hs)" by (simp add: still_def)
          have "filter (\<lambda>x. x \<notin> set (still t es hs @ [h])) (registered_under t es)
                = filter (\<lambda>x. x \<noteq> h \<and> x \<notin> set (still t es hs)) (registered_under t es)"
            by (intro filter_cong) auto
          with False new \<open>t' = t\<close> On nm show ?thesis
            by (simp add: set_add_new Cons.IH st s2)
        qed
      qed
    qed
  next
    case (Unsubscribe t' h)
    show ?thesis
    proof (cases "t' = t")
      case False
      with Unsubscribe show ?thesis by (simp add: Cons.IH still_def)
    next
      case True
      have "still t es (set_delete h hs) = still t (e # es) hs"
        unfolding still_def set_delete_def Unsubscribe using True
        by (auto intro: filter_cong)
      with True Unsubscribe show ?thesis by (simp add: Cons.IH)
    qed
  qed (simp_all add: Cons.IH still_def)
qed

lemma registered_exec: "hs_of (fst (exec new_service es)) t = registered_under t es"
proof -
  have "hs_of new_service t = []" by (simp add: hs_of_def new_service_def)
  then show ?thesis by (simp add: hs_of_exec fold_apply_reg still_def)
qed

lemma for_each_called:
  "for_each hs d = (map (\<lambda>h. Invoke h d) (called hs), list_ex throws hs)"
proof (induction hs)
  case Nil
  then show ?case by simp
next
  case (Cons h hs)
  then show ?case by (cases h) simp_all
qed

lemma get_for_each_hs_of: "get_for_each s t d = for_each (hs_of s t) d"
  by (simp add: get_for_each_def hs_of_def split: option.splits)

lemma called_all: "\<not> list_ex throws hs \<Longrightarrow> called hs = hs"
  by (induction hs) simp_all

lemma emit_hs_of:
  "emit s t d =
     (Emitted t d # map (\<lambda>h. Invoke h d) (called (hs_of s t))
        @ (if t \<noteq> ''message'' \<and> \<not> list_ex throws (hs_of s t)
           then map (\<lambda>h. Invoke h d) (called (hs_of s ''message'')) else []),
      list_ex throws (hs_of s t)
        \<or> t \<noteq> ''message'' \<and> list_ex throws (hs_of s ''message''))"
  by (auto simp add: emit_def get_for_each_hs_of for_each_called split: bool.splits)

lemma emit_handlers: "handlers s' = handlers s \<Longrightarrow> emit s' t d = emit s t d"
  by (simp add: emit_hs_of hs_of_def)

text \<open>
  C8, as stated, fails: \<open>emit\<close> does not catch. When the first handler of a tag throws, the
  second handler of the tag and the handler registered under \<open>message\<close> are not invoked.
\<close>

theorem throwing_handler_counterexample:
  "registered_under ''job_completed'' throwing_registry = [Throws 1, Returns 2]
   \<and> registered_under ''message'' throwing_registry = [Returns 3]
   \<and> emit (fst (exec new_service throwing_registry)) ''job_completed'' Map.empty =
       ([Emitted ''job_completed'' Map.empty, Invoke (Throws 1) Map.empty], True)"
  by (simp add: emit_hs_of registered_exec) (simp add: throwing_registry_def)

text \<open>
  C8, amended. After any sequence of events, dispatch invokes the handlers registered under
  the event's tag in registration order, up to and including the first one that throws;
  if none of them throws and the tag is not the wildcard tag \<open>message\<close>, it then invokes
  the handlers registered under \<open>message\<close> in the same way. An event tagged \<open>message\<close> is
  delivered once. When no handler of either tag throws, all of them are invoked and \<open>emit\<close>
  returns normally.
\<close>

theorem emit_registration_order:
  "fst (emit (fst (exec new_service es)) t d) =
     Emitted t d # map (\<lambda>h. Invoke h d) (called (registered_under t es))
       @ (if t \<noteq> ''message'' \<and> \<not> list_ex throws (registered_under t es)
          then map (\<lambda>h. Invoke h d) (called (registered_under ''message'' es)) else [])
   \<and> (\<not> list_ex throws (registered_under t es)
        \<and> \<not> list_ex throws (registered_under ''message'' es) \<longrightarrow>
      emit (fst (exec new_service es)) t d =
        (Emitted t d # map (\<lambda>h. Invoke h d) (registered_under t es)
           @ (if t \<noteq> ''message'' then map (\<lambda>h. Invoke h d) (registered_under ''message'' es)
              else []),
         False))"
  by (simp add: emit_hs_of registered_exec called_all)

theorem emit_registration_order_witness:
  "\<not> list_ex throws (registered_under ''job_completed'' mixed_registry)
   \<and> \<not> list_ex throws (registered_under ''message'' mixed_registry)
   \<and> emit (fst (exec new_service mixed_registry)) ''job_completed'' Map.empty =
       ([Emitted ''job_completed'' Map.empty, Invoke (Returns 3) Map.empty,
         Invoke (Returns 1) Map.empty, Invoke (Returns 2) Map.empty], False)"
proof -
  have r: "registered_under ''job_completed'' mixed_registry = [Returns 3, Returns 1]"
    "registered_under ''message'' mixed_registry = [Returns 2]"
    by (simp_all add: mixed_registry_def)
  then have h: "\<not> list_ex throws (registered_under ''job_completed'' mixed_registry)
      \<and> \<not> list_ex throws (registered_under ''message'' mixed_registry)"
    by simp
  with emit_registration_order [of mixed_registry "''job_completed''" Map.empty] r show ?thesis
    by simp
qed

subsection \<open>The reconnect counter\<close>

lemma scheduled_Nil: "scheduled [] = 0"
  by (simp add: scheduled_def)

lemma scheduled_append: "scheduled (a @ b) = scheduled a + scheduled b"
  by (simp add: scheduled_def)

lemma scheduled_single: "scheduled [x] = (if is_timeout x then 1 else 0)"
  by (simp add: scheduled_def)

lemma scheduled_Cons: "scheduled (x # xs) = (if is_timeout x then 1 else 0) + scheduled xs"
  by (simp add: scheduled_def)

lemma scheduled_invokes: "scheduled (map (\<lambda>h. Invoke h d) hs) = 0"
  by (simp add: scheduled_def filter_empty_conv)

lemma scheduled_emit: "scheduled (fst (emit s t d)) = 0"
  by (simp add: emit_hs_of scheduled_Cons scheduled_append scheduled_invokes scheduled_Nil)

lemma scheduled_caught: "scheduled (caught (emit s t d)) = 0"
  by (simp add: caught_def scheduled_append scheduled_emit scheduled_single)

lemma scheduled_connect: "scheduled (snd (connect s)) = 0"
  by (simp add: connect_def scheduled_def)

lemma attempts_connect: "reconnectAttempts (fst (connect s)) = reconnectAttempts s"
  by (simp add: connect_def)

lemma scheduled_onclose:
  "scheduled (snd (onclose s)) =
     (if \<not> snd (emit s ''disconnected'' Map.empty) \<and> reconnectAttempts s < maxReconnectAttempts
      then 1 else 0)"
proof -
  have e: "emit (s\<lparr>isConnecting := False, ws := None\<rparr>) ''disconnected'' Map.empty
            = emit s ''disconnected'' Map.empty"
    by (rule emit_handlers) simp
  show ?thesis
    using scheduled_emit [of s "''disconnected''" Map.empty]
    by (simp add: onclose_def Let_def e scheduled_Cons scheduled_append scheduled_Nil)
qed

lemma attempts_onclose:
  "reconnectAttempts (fst (onclose s)) = reconnectAttempts s + scheduled (snd (onclose s))"
proof -
  have e: "emit (s\<lparr>isConnecting := False, ws := None\<rparr>) ''disconnected'' Map.empty
            = emit s ''disconnected'' Map.empty"
    by (rule emit_handlers) simp
  show ?thesis
    unfolding scheduled_onclose by (simp add: onclose_def Let_def e)
qed

lemma step_not_open:
  assumes "\<not> is_open e"
  shows "scheduled (snd (step s e)) =
           (if is_close e \<and> enabled s e \<and> \<not> snd (emit s ''disconnected'' Map.empty)
               \<and> reconnectAttempts s < maxReconnectAttempts then 1 else 0)"
    and "reconnectAttempts (fst (step s e)) = reconnectAttempts s + scheduled (snd (step s e))"
proof -
  show a: "scheduled (snd (step s e)) =
           (if is_close e \<and> enabled s e \<and> \<not> snd (emit s ''disconnected'' Map.empty)
               \<and> reconnectAttempts s < maxReconnectAttempts then 1 else 0)"
  proof (cases e)
    case (SockMessage k m)
    then show ?thesis
      by (cases m) (simp_all add: step_def onmessage_def scheduled_caught scheduled_Nil scheduled_single)
  next
    case (SockClose k)
    have "emit (s\<lparr>sockets := (sockets s)[k := CLOSED]\<rparr>) ''disconnected'' Map.empty
            = emit s ''disconnected'' Map.empty"
      by (rule emit_handlers) simp
    with SockClose show ?thesis
      by (simp add: step_def scheduled_onclose scheduled_Nil)
  qed (use assms in \<open>simp_all add: step_def scheduled_connect scheduled_emit
        disconnect_def send_def onerror_def scheduled_Nil scheduled_Cons split: option.splits\<close>)
  show "reconnectAttempts (fst (step s e)) = reconnectAttempts s + scheduled (snd (step s e))"
  proof (cases e)
    case (SockMessage k m)
    then show ?thesis
      by (cases m) (simp_all add: step_def onmessage_def scheduled_caught scheduled_Nil scheduled_single)
  next
    case (SockClose k)
    then show ?thesis
      by (simp add: step_def attempts_onclose scheduled_Nil)
  qed (use assms in \<open>simp_all add: step_def attempts_connect scheduled_connect scheduled_emit
        disconnect_def send_def onerror_def on_def unsubscribe_def Let_def scheduled_Nil
        scheduled_Cons split: option.splits\<close>)
qed

lemma scheduled_le:
  "\<forall>e \<in> set es. \<not> is_open e \<Longrightarrow>
     scheduled (snd (exec s es)) \<le> min (delivered_closes s es) (maxReconnectAttempts - reconnectAttempts s)"
proof (induction es arbitrary: s)
  case Nil
  then show ?case by (simp add: scheduled_def)
next
  case (Cons e es)
  then have e: "\<not> is_open e" and es: "\<forall>e \<in> set es. \<not> is_open e" by simp_all
  from Cons.IH [OF es, of "fst (step s e)"] show ?case
    unfolding exec_Cons_snd scheduled_append delivered_closes.simps
    by (auto simp add: step_not_open [OF e] split: if_splits)
qed

lemma all_return_emit: "all_return s \<Longrightarrow> \<not> snd (emit s t d)"
  by (simp add: all_return_def emit_hs_of)

lemma all_return_step:
  assumes "all_return s" and "\<not> registers_thrower e"
  shows "all_return (fst (step s e))"
  unfolding all_return_def
proof (intro allI)
  fix t
  from assms(1) have a: "\<not> list_ex throws (hs_of s t)" by (simp add: all_return_def)
  show "\<not> list_ex throws (hs_of (fst (step s e)) t)"
    unfolding hs_of_step using a assms(2)
    by (cases e) (auto simp: set_add_def set_delete_def list_ex_iff)
qed

lemma scheduled_eq:
  "\<forall>e \<in> set es. \<not> is_open e \<Longrightarrow> all_return s \<Longrightarrow> \<forall>e \<in> set es. \<not> registers_thrower e \<Longrightarrow>
     scheduled (snd (exec s es)) = min (delivered_closes s es) (maxReconnectAttempts - reconnectAttempts s)"
proof (induction es arbitrary: s)
  case Nil
  then show ?case by (simp add: scheduled_def)
next
  case (Cons e es)
  then have e: "\<not> is_open e" and es: "\<forall>e \<in> set es. \<not> is_open e"
    and r: "all_return (fst (step s e))" "\<forall>e \<in> set es. \<not> registers_thrower e"
    by (simp_all add: all_return_step)
  from Cons.IH [OF es r] all_return_emit [OF Cons.prems(2)] show ?case
    unfolding exec_Cons_snd scheduled_append delivered_closes.simps
    by (auto simp add: step_not_open [OF e] split: if_splits)
qed

lemma reset_only_on_open:
  assumes "reconnectAttempts (fst (step s e)) = 0"
  shows "reconnectAttempts s = 0 \<or> (is_open e \<and> enabled s e)"
proof (cases "is_open e")
  case True
  with assms show ?thesis by (cases "enabled s e") (simp_all add: step_def)
next
  case False
  from step_not_open(2) [OF False, of s] assms show ?thesis by simp
qed

text \<open>
  C4. In every event sequence without a successful open, from any state, the number of
  scheduled reconnects is at most the number of delivered close events and at most what is
  left of the five attempts, so at most five (external \<open>connect\<close> calls do not change this,
  for \<open>connect\<close> does not touch the counter); it is exactly the smaller of the two when no
  handler throws. Six closes in a row on a fresh service schedule exactly five reconnects
  and the sixth schedules none. A step that brings the counter to zero from a positive
  value is a delivered open event.
\<close>

theorem reconnect_cap:
  "((\<forall>e \<in> set es. \<not> is_open e) \<longrightarrow>
      scheduled (snd (exec s es)) \<le>
        min (delivered_closes s es) (maxReconnectAttempts - reconnectAttempts s)
      \<and> scheduled (snd (exec s es)) \<le> 5
      \<and> (all_return s \<and> (\<forall>e \<in> set es. \<not> registers_thrower e) \<longrightarrow>
           scheduled (snd (exec s es)) =
             min (delivered_closes s es) (maxReconnectAttempts - reconnectAttempts s)))
   \<and> delivered_closes new_service six_closes = 6
   \<and> scheduled (snd (exec new_service six_closes)) = 5
   \<and> scheduled (snd (step (fst (exec new_service (butlast six_closes))) (last six_closes))) = 0
   \<and> (reconnectAttempts (fst (step s e)) = 0 \<longrightarrow>
        reconnectAttempts s = 0 \<or> is_open e \<and> enabled s e)"
proof (intro conjI impI)
  assume a: "\<forall>e \<in> set es. \<not> is_open e"
  then show le: "scheduled (snd (exec s es)) \<le>
        min (delivered_closes s es) (maxReconnectAttempts - reconnectAttempts s)"
    by (rule scheduled_le)
  then show "scheduled (snd (exec s es)) \<le> 5"
    by (simp add: maxReconnectAttempts_def) arith
  assume "all_return s \<and> (\<forall>e \<in> set es. \<not> registers_thrower e)"
  with a show "scheduled (snd (exec s es)) =
        min (delivered_closes s es) (maxReconnectAttempts - reconnectAttempts s)"
    by (intro scheduled_eq) simp_all
next
  show "delivered_closes new_service six_closes = 6" by code_simp
  show "scheduled (snd (exec new_service six_closes)) = 5" by code_simp
  show "scheduled (snd (step (fst (exec new_service (butlast six_closes))) (last six_closes))) = 0"
    by code_simp
next
  assume "reconnectAttempts (fst (step s e)) = 0"
  then show "reconnectAttempts s = 0 \<or> is_open e \<and> enabled s e"
    by (rule reset_only_on_open)
qed

theorem reconnect_cap_witness:
  "\<not> list_ex is_open six_closes
   \<and> all_return new_service \<and> \<not> list_ex registers_thrower six_closes
   \<and> scheduled (snd (exec new_service six_closes)) = min 6 (5 - 0)
   \<and> reconnectAttempts (fst (step retrying (SockOpen 1))) = 0
   \<and> reconnectAttempts retrying = 1
   \<and> is_open (SockOpen 1) \<and> enabled retrying (SockOpen 1)"
proof -
  have h: "\<forall>e \<in> set six_closes. \<not> is_open e" "\<forall>e \<in> set six_closes. \<not> registers_thrower e"
    "all_return new_service"
    by (simp_all add: six_closes_def all_return_def hs_of_def new_service_def)
  have r: "reconnectAttempts (fst (step retrying (SockOpen 1))) = 0" "reconnectAttempts retrying = 1"
    by (simp_all add: retrying_eq step_def sock_state_def onopen_def Let_def)
  from reconnect_cap [of six_closes new_service] h
  have "scheduled (snd (exec new_service six_closes)) =
          min (delivered_closes new_service six_closes) (maxReconnectAttempts - reconnectAttempts new_service)"
    and "delivered_closes new_service six_closes = 6"
    by simp_all
  moreover from reconnect_cap [of "[]" retrying "SockOpen 1"] r
  have "is_open (SockOpen 1) \<and> enabled retrying (SockOpen 1)"
    by simp
  ultimately show ?thesis using h r
    by (simp add: maxReconnectAttempts_def new_service_def list_ex_iff)
qed

subsection \<open>Connected and disconnected reports\<close>

lemma ndc_append:
  "no_double_connected c (a @ b) =
     (no_double_connected c a \<and> no_double_connected (connected_after c a) b)"
  by (induction c a rule: no_double_connected.induct) auto

lemma connected_after_append:
  "connected_after c (a @ b) = connected_after (connected_after c a) b"
  by (induction c a rule: connected_after.induct) auto

lemma invokes_quiet:
  "no_double_connected c (map (\<lambda>h. Invoke h d) l)" "connected_after c (map (\<lambda>h. Invoke h d) l) = c"
  by (induction l) auto

lemma emit_trace:
  "no_double_connected c (fst (emit s t d)) = (t = ''connected'' \<longrightarrow> \<not> c)"
  "connected_after c (fst (emit s t d)) =
     (if t = ''connected'' then True else if t = ''disconnected'' then False else c)"
  by (auto simp: emit_hs_of ndc_append connected_after_append invokes_quiet)

lemma caught_trace:
  "no_double_connected c (caught (emit s t d)) = (t = ''connected'' \<longrightarrow> \<not> c)"
  "connected_after c (caught (emit s t d)) =
     (if t = ''connected'' then True else if t = ''disconnected'' then False else c)"
  by (auto simp: caught_def ndc_append connected_after_append emit_trace)

lemma single_live_new: "single_live new_service False"
  by (simp add: single_live_def new_service_def)

lemma connect_live:
  assumes "single_live s c"
    and "ws_readyState s \<noteq> Some OPEN \<and> \<not> isConnecting s \<longrightarrow> CLOSING \<notin> set (sockets s)"
  shows "single_live (fst (connect s)) c"
proof (cases "ws_readyState s = Some OPEN \<or> isConnecting s")
  case True
  with assms show ?thesis by (simp add: connect_def)
next
  case False
  with assms(2) have nc: "CLOSING \<notin> set (sockets s)" by simp
  have w: "ws s = None"
  proof (cases "ws s")
    case (Some k)
    with assms(1) have "k < length (sockets s)"
      "sockets s ! k = CONNECTING \<and> isConnecting s \<or> sockets s ! k = OPEN \<or> sockets s ! k = CLOSING"
      by (auto simp: single_live_def)
    then have st: "sockets s ! k = CLOSING"
      using False Some by (auto simp: ws_readyState_def)
    have "sockets s ! k \<in> set (sockets s)"
      using \<open>k < length (sockets s)\<close> by (rule nth_mem)
    with st nc have False by simp
    then show ?thesis ..
  qed simp
  with assms(1) nc have c: "\<not> c" "\<not> isConnecting s"
    and cl': "\<forall>j < length (sockets s). sockets s ! j = CLOSED \<or> sockets s ! j = CLOSING"
    by (auto simp: single_live_def)
  from cl' nc have cl: "\<forall>j < length (sockets s). sockets s ! j = CLOSED"
    by (metis nth_mem)
  from False cl c show ?thesis
    by (auto simp: connect_def single_live_def nth_append)
qed

lemma connect_trace:
  "no_double_connected c (snd (connect s))" "connected_after c (snd (connect s)) = c"
  by (simp_all add: connect_def)

lemma single_live_timers: "single_live (s\<lparr>timers := n\<rparr>) c = single_live s c"
  by (simp add: single_live_def cong: option.case_cong)

lemma ws_readyState_timers: "ws_readyState (s\<lparr>timers := n\<rparr>) = ws_readyState s"
  by (simp add: ws_readyState_def split: option.splits)

lemma disconnect_live:
  assumes "single_live s c"
  shows "single_live (fst (disconnect s)) c"
proof (cases "ws s")
  case None
  with assms show ?thesis by (simp add: disconnect_def)
next
  case (Some k)
  with assms have k: "k < length (sockets s)"
      "sockets s ! k = CONNECTING \<or> sockets s ! k = OPEN \<or> sockets s ! k = CLOSING"
    and cl: "\<forall>j < length (sockets s). j \<noteq> k \<longrightarrow> sockets s ! j = CLOSED"
    by (auto simp: single_live_def)
  from k have "close_socket k (sockets s) = (sockets s)[k := CLOSING]"
    by (auto simp: close_socket_def) (metis list_update_id)
  with Some k cl show ?thesis
    by (auto simp: disconnect_def single_live_def nth_list_update set_conv_nth)
qed

lemma disconnect_trace:
  "no_double_connected c (snd (disconnect s))" "connected_after c (snd (disconnect s)) = c"
  by (simp_all add: disconnect_def split: option.splits)

lemma open_live:
  assumes "single_live s c" and "sock_state s k = Some CONNECTING"
  shows "\<not> c" and "single_live (fst (onopen (s\<lparr>sockets := (sockets s)[k := OPEN]\<rparr>))) True"
proof -
  from assms(2) have k: "k < length (sockets s)" "sockets s ! k = CONNECTING"
    by (auto simp: sock_state_def split: if_splits)
  with assms(1) have w: "ws s = Some k"
    by (cases "ws s") (auto simp: single_live_def)
  with assms(1) k show "\<not> c" by (auto simp: single_live_def)
  from w assms(1) k show "single_live (fst (onopen (s\<lparr>sockets := (sockets s)[k := OPEN]\<rparr>))) True"
    by (auto simp: single_live_def onopen_def Let_def nth_list_update)
qed

lemma closing_live:
  assumes "single_live s c" and "sock_state s k = Some OPEN"
  shows "single_live (s\<lparr>sockets := (sockets s)[k := CLOSING]\<rparr>) c"
proof -
  from assms(2) have k: "k < length (sockets s)" "sockets s ! k = OPEN"
    by (auto simp: sock_state_def split: if_splits)
  with assms(1) have w: "ws s = Some k"
    by (cases "ws s") (auto simp: single_live_def)
  with assms(1) k show ?thesis
    by (auto simp: single_live_def nth_list_update)
qed

lemma onopen_trace:
  "no_double_connected c (snd (onopen s)) = (\<not> c)" "connected_after c (snd (onopen s)) = True"
  by (simp_all add: onopen_def Let_def emit_trace)

lemma close_live:
  assumes "single_live s c" and "sock_state s k \<noteq> None" and "sock_state s k \<noteq> Some CLOSED"
  shows "single_live (fst (onclose (s\<lparr>sockets := (sockets s)[k := CLOSED]\<rparr>))) False"
proof -
  from assms(2,3) have k: "k < length (sockets s)" "sockets s ! k \<noteq> CLOSED"
    by (auto simp: sock_state_def split: if_splits)
  have *: "\<forall>j < length (sockets s). j \<noteq> k \<longrightarrow> sockets s ! j = CLOSED \<or> sockets s ! j = CLOSING"
    using assms(1) k by (cases "ws s") (auto simp: single_live_def)
  with k show ?thesis
    by (auto simp: single_live_def onclose_def Let_def nth_list_update)
qed

lemma onclose_trace:
  "no_double_connected c (snd (onclose s))" "connected_after c (snd (onclose s)) = False"
  by (simp_all add: onclose_def Let_def emit_trace ndc_append connected_after_append)

lemma step_live:
  assumes "single_live s c" and "\<not> synthetic_on_wire e"
    and "opens_socket s e \<longrightarrow> CLOSING \<notin> set (sockets s)"
  shows "no_double_connected c (snd (step s e))
         \<and> single_live (fst (step s e)) (connected_after c (snd (step s e)))"
proof (cases "enabled s e")
  case False
  with assms(1) show ?thesis by (simp add: step_def)
next
  case en: True
  show ?thesis
  proof (cases e)
    case Connect
    with assms en show ?thesis
      by (simp add: step_def connect_trace connect_live opens_socket_def)
  next
    case Disconnect
    with assms en show ?thesis
      by (simp add: step_def disconnect_trace disconnect_live)
  next
    case (Send t p)
    with assms en show ?thesis
      by (simp add: step_def send_def)
  next
    case (On t h)
    with assms en show ?thesis
      by (simp add: step_def on_def Let_def single_live_def cong: option.case_cong)
  next
    case (Unsubscribe t h)
    with assms en show ?thesis
      by (cases "handlers s t") (simp_all add: step_def unsubscribe_def single_live_def cong: option.case_cong)
  next
    case (SockOpen k)
    with assms en show ?thesis
      using open_live [of s c k] by (simp add: step_def onopen_trace)
  next
    case (SockClose k)
    with assms en show ?thesis
      using close_live [of s c k] by (simp add: step_def onclose_trace)
  next
    case (SockClosing k)
    with assms en show ?thesis
      using closing_live [of s c k] by (simp add: step_def)
  next
    case (SockError k err)
    with assms en show ?thesis
      by (simp add: step_def onerror_def emit_trace)
  next
    case (SockMessage k m)
    with assms en show ?thesis
      by (cases m) (simp_all add: step_def onmessage_def caught_trace)
  next
    case TimerFire
    with assms en show ?thesis
      using connect_live [of "s\<lparr>timers := timers s - 1\<rparr>" c]
      by (simp add: step_def connect_trace opens_socket_def single_live_timers ws_readyState_timers)
  qed
qed

lemma exec_live:
  "single_live s c \<Longrightarrow> \<forall>e \<in> set es. \<not> synthetic_on_wire e \<Longrightarrow> no_overlap s es
     \<Longrightarrow> no_double_connected c (snd (exec s es))
         \<and> single_live (fst (exec s es)) (connected_after c (snd (exec s es)))"
proof (induction es arbitrary: s c)
  case Nil
  then show ?case by simp
next
  case (Cons e es)
  from Cons.prems have st: "no_double_connected c (snd (step s e))"
      "single_live (fst (step s e)) (connected_after c (snd (step s e)))"
    using step_live [of s c e] by simp_all
  from Cons.prems
  have "no_double_connected (connected_after c (snd (step s e))) (snd (exec (fst (step s e)) es))
      \<and> single_live (fst (exec (fst (step s e)) es))
          (connected_after (connected_after c (snd (step s e))) (snd (exec (fst (step s e)) es)))"
    by (intro Cons.IH [OF st(2)]) simp_all
  with st(1) show ?case
    unfolding exec_Cons_snd exec_Cons_fst by (simp add: ndc_append connected_after_append)
qed

lemma single_live_connected:
  assumes "single_live s c"
  shows "isConnected s \<longleftrightarrow> OPEN \<in> set (sockets s)" and "isConnected s \<Longrightarrow> c"
proof -
  show "isConnected s \<longleftrightarrow> OPEN \<in> set (sockets s)"
  proof
    assume "isConnected s"
    then obtain k where "k < length (sockets s)" "sockets s ! k = OPEN"
      by (auto simp: isConnected_def ws_readyState_def split: option.splits if_splits)
    then show "OPEN \<in> set (sockets s)" by (metis nth_mem)
  next
    assume "OPEN \<in> set (sockets s)"
    then obtain j where j: "j < length (sockets s)" "sockets s ! j = OPEN"
      by (auto simp: in_set_conv_nth)
    show "isConnected s"
    proof (cases "ws s")
      case None
      with assms j show ?thesis by (auto simp: single_live_def)
    next
      case (Some k)
      with assms j have "j = k" by (auto simp: single_live_def)
      with Some j show ?thesis by (simp add: isConnected_def ws_readyState_def)
    qed
  qed
  show "isConnected s \<Longrightarrow> c"
    using assms
    by (auto simp: isConnected_def ws_readyState_def single_live_def split: option.splits if_splits)
qed

lemma closing_update: "CLOSING \<notin> set xs \<Longrightarrow> v \<noteq> CLOSING \<Longrightarrow> CLOSING \<notin> set (xs[k := v])"
  by (metis insert_iff set_update_subset_insert subsetD)

lemma no_closing_step:
  assumes "CLOSING \<notin> set (sockets s)" and "\<not> starts_closing e"
  shows "CLOSING \<notin> set (sockets (fst (step s e)))"
proof (cases e)
  case (SockMessage k m)
  with assms show ?thesis by (cases m) (simp_all add: step_def onmessage_def)
next
  case (SockClose k)
  with assms show ?thesis
    by (simp add: step_def onclose_def Let_def closing_update)
next
  case (SockOpen k)
  with assms show ?thesis
    by (simp add: step_def onopen_def Let_def closing_update)
qed (use assms in \<open>auto simp: step_def connect_def send_def on_def Let_def unsubscribe_def
       onerror_def split: option.splits\<close>)

lemma no_overlap_without_closing:
  "CLOSING \<notin> set (sockets s) \<Longrightarrow> \<forall>e \<in> set es. \<not> starts_closing e \<Longrightarrow> no_overlap s es"
proof (induction es arbitrary: s)
  case Nil
  then show ?case by simp
next
  case (Cons e es)
  then have "CLOSING \<notin> set (sockets (fst (step s e)))"
    by (intro no_closing_step) auto
  with Cons show ?case by simp
qed

text \<open>
  C5, as stated, fails: \<open>disconnect\<close> drops the reference to an open socket before its
  close event, a following \<open>connect\<close> opens a second socket, and its open event reports
  \<open>connected\<close> again before the first socket has reported \<open>disconnected\<close>.
\<close>

theorem connected_twice_counterexample:
  "\<not> no_double_connected False
       (snd (exec new_service [Connect, SockOpen 0, Disconnect, Connect, SockOpen 1]))"
  by code_simp

text \<open>
  C5, amended. In every event sequence from the initial state in which no inbound frame
  carries a synthetic tag and no new socket is opened while a socket is closing (closed by
  \<open>disconnect\<close> or by the server's closing handshake, and still waiting for its close
  event), \<open>connected\<close> is never emitted twice without a \<open>disconnected\<close> in between. Every
  sequence in which no socket enters the closing state (no \<open>disconnect\<close> call and no
  closing handshake started by the server) is of that kind.
\<close>

theorem connected_alternates:
  "(\<not> list_ex synthetic_on_wire es \<and> no_overlap new_service es \<longrightarrow>
      no_double_connected False (snd (exec new_service es)))
   \<and> (\<not> list_ex starts_closing es \<longrightarrow> no_overlap new_service es)"
proof (intro conjI impI)
  assume "\<not> list_ex synthetic_on_wire es \<and> no_overlap new_service es"
  then have "\<forall>e \<in> set es. \<not> synthetic_on_wire e" "no_overlap new_service es"
    by (simp_all add: list_ex_iff)
  with single_live_new show "no_double_connected False (snd (exec new_service es))"
    using exec_live by blast
next
  assume "\<not> list_ex starts_closing es"
  then show "no_overlap new_service es"
    by (intro no_overlap_without_closing) (simp_all add: new_service_def list_ex_iff)
qed

theorem connected_alternates_witness:
  "\<not> list_ex synthetic_on_wire [Connect, SockOpen 0, Disconnect, SockClose 0, TimerFire, SockOpen 1]
   \<and> no_overlap new_service [Connect, SockOpen 0, Disconnect, SockClose 0, TimerFire, SockOpen 1]
   \<and> no_double_connected False
        (snd (exec new_service [Connect, SockOpen 0, Disconnect, SockClose 0, TimerFire, SockOpen 1]))
   \<and> \<not> list_ex starts_closing [Connect, SockOpen 0, SockClose 0, TimerFire, SockOpen 1]
   \<and> no_double_connected False
        (snd (exec new_service [Connect, SockOpen 0, SockClose 0, TimerFire, SockOpen 1]))"
proof -
  have h1: "\<not> list_ex synthetic_on_wire [Connect, SockOpen 0, Disconnect, SockClose 0, TimerFire, SockOpen 1]"
    "\<not> list_ex synthetic_on_wire [Connect, SockOpen 0, SockClose 0, TimerFire, SockOpen 1]"
    by simp_all
  have h2: "no_overlap new_service [Connect, SockOpen 0, Disconnect, SockClose 0, TimerFire, SockOpen 1]"
    by code_simp
  have h3: "\<not> list_ex starts_closing [Connect, SockOpen 0, SockClose 0, TimerFire, SockOpen 1]"
    by simp
  from connected_alternates [of "[Connect, SockOpen 0, Disconnect, SockClose 0, TimerFire, SockOpen 1]"] h1 h2
  have a: "no_double_connected False
        (snd (exec new_service [Connect, SockOpen 0, Disconnect, SockClose 0, TimerFire, SockOpen 1]))"
    by blast
  from connected_alternates [of "[Connect, SockOpen 0, SockClose 0, TimerFire, SockOpen 1]"] h1 h3
  have b: "no_double_connected False
        (snd (exec new_service [Connect, SockOpen 0, SockClose 0, TimerFire, SockOpen 1]))"
    by blast
  from h1 h2 h3 a b show ?thesis by blast
qed

subsection \<open>Sending\<close>

lemma never_open_not_connected:
  assumes "never_open s"
  shows "\<not> isConnected s"
proof
  assume "isConnected s"
  then obtain k where "k < length (sockets s)" "sockets s ! k = OPEN"
    by (auto simp: isConnected_def ws_readyState_def split: option.splits if_splits)
  then have "OPEN \<in> set (sockets s)"
    by (metis nth_mem)
  with assms show False by (simp add: never_open_def)
qed

lemma never_open_update: "OPEN \<notin> set xs \<Longrightarrow> v \<noteq> OPEN \<Longrightarrow> OPEN \<notin> set (xs[k := v])"
  by (metis insert_iff set_update_subset_insert subsetD)

lemma never_open_step:
  assumes "never_open s" and "\<not> is_open e"
  shows "never_open (fst (step s e))"
proof (cases e)
  case (SockMessage k m)
  with assms show ?thesis by (cases m) (simp_all add: step_def onmessage_def)
next
  case (SockClose k)
  with assms show ?thesis
    by (simp add: step_def onclose_def Let_def never_open_def never_open_update)
qed (use assms in \<open>auto simp: step_def never_open_def connect_def disconnect_def close_socket_def
       send_def on_def Let_def unsubscribe_def onerror_def never_open_update split: option.splits\<close>)

lemma never_open_exec:
  "never_open s \<Longrightarrow> \<forall>e \<in> set es. \<not> is_open e \<Longrightarrow> never_open (fst (exec s es))"
proof (induction es arbitrary: s)
  case Nil
  then show ?case by simp
next
  case (Cons e es)
  then show ?case
    unfolding exec_Cons_fst by (simp add: never_open_step)
qed

lemma send_warns:
  "\<not> isConnected s \<Longrightarrow>
     send t p s = (s, [ConsoleWarn ''WebSocket not connected, cannot send message''])"
  by (simp add: send_def isConnected_def)

text \<open>
  C7, as stated, fails: after a run in which a second socket is opened while the first is
  closing, the close event of the first clears the reference; the second socket then
  opens and \<open>connected\<close> is reported, but \<open>send\<close> finds no referenced socket and only warns.
\<close>

theorem open_but_unreferenced_counterexample:
  "sock_state orphaned 1 = Some OPEN
   \<and> connected_after False (snd (exec new_service orphan_run))
   \<and> ws orphaned = None
   \<and> send ''job:resume'' [''job_id'' \<mapsto> JStr ''J1''] orphaned =
       (orphaned, [ConsoleWarn ''WebSocket not connected, cannot send message''])"
proof -
  have a: "sock_state orphaned 1 = Some OPEN" "connected_after False (snd (exec new_service orphan_run))"
    "ws orphaned = None"
    by code_simp+
  then have "\<not> isConnected orphaned"
    by (simp add: isConnected_def ws_readyState_def)
  with a show ?thesis by (simp add: send_warns)
qed

text \<open>
  C7, amended. \<open>send\<close> tests the socket that the service references. If that socket is
  open, the frame \<^verbatim>\<open>{ type, ...payload }\<close> is written to it and nothing else changes; the
  frame is the payload with \<open>type\<close> set to the tag unless the payload has a \<open>type\<close> of its
  own. Otherwise nothing is written, a warning goes to the console and the state is as it
  was: nothing is queued. In every run in which no inbound frame carries a synthetic tag
  and no new socket is opened while a socket is closing, the referenced socket is open
  exactly when some socket of the service is open, and then \<open>connected\<close> is the last
  report. A service that has not seen a successful open only warns.
\<close>

theorem send_transmits_or_drops:
  "(isConnected s \<longrightarrow>
      (\<exists>k. ws s = Some k \<and> sock_state s k = Some OPEN
         \<and> send t p s = (s, [SocketSend k (spread [''type'' \<mapsto> JStr t] p)])))
   \<and> spread [''type'' \<mapsto> JStr t] p ''type'' =
       (case p ''type'' of None \<Rightarrow> Some (JStr t) | Some v \<Rightarrow> Some v)
   \<and> (\<forall>k. k \<noteq> ''type'' \<longrightarrow> spread [''type'' \<mapsto> JStr t] p k = p k)
   \<and> (\<not> isConnected s \<longrightarrow>
        send t p s = (s, [ConsoleWarn ''WebSocket not connected, cannot send message'']))
   \<and> (\<not> list_ex synthetic_on_wire es \<and> no_overlap new_service es \<longrightarrow>
        (isConnected (fst (exec new_service es)) \<longleftrightarrow> OPEN \<in> set (sockets (fst (exec new_service es))))
        \<and> (isConnected (fst (exec new_service es)) \<longrightarrow>
             connected_after False (snd (exec new_service es))))
   \<and> ((\<forall>e \<in> set es. \<not> is_open e) \<longrightarrow>
        send t p (fst (exec new_service es)) =
          (fst (exec new_service es), [ConsoleWarn ''WebSocket not connected, cannot send message'']))"
proof (intro conjI impI allI)
  assume c: "isConnected s"
  then obtain k where "ws s = Some k" "sock_state s k = Some OPEN"
    by (cases "ws s") (auto simp: isConnected_def ws_readyState_def sock_state_def split: if_splits)
  with c show "\<exists>k. ws s = Some k \<and> sock_state s k = Some OPEN
         \<and> send t p s = (s, [SocketSend k (spread [''type'' \<mapsto> JStr t] p)])"
    by (simp add: send_def isConnected_def)
next
  show "spread [''type'' \<mapsto> JStr t] p ''type'' =
       (case p ''type'' of None \<Rightarrow> Some (JStr t) | Some v \<Rightarrow> Some v)"
    by (simp add: spread_def map_add_def split: option.splits)
next
  fix k :: string assume "k \<noteq> ''type''"
  then show "spread [''type'' \<mapsto> JStr t] p k = p k"
    by (simp add: spread_def map_add_def split: option.splits)
next
  assume "\<not> isConnected s"
  then show "send t p s = (s, [ConsoleWarn ''WebSocket not connected, cannot send message''])"
    by (rule send_warns)
next
  assume "\<not> list_ex synthetic_on_wire es \<and> no_overlap new_service es"
  then have "\<forall>e \<in> set es. \<not> synthetic_on_wire e" "no_overlap new_service es"
    by (simp_all add: list_ex_iff)
  with single_live_new
  have l: "single_live (fst (exec new_service es)) (connected_after False (snd (exec new_service es)))"
    using exec_live by blast
  from single_live_connected(1) [OF l]
  show "isConnected (fst (exec new_service es)) \<longleftrightarrow> OPEN \<in> set (sockets (fst (exec new_service es)))" .
  assume "isConnected (fst (exec new_service es))"
  with single_live_connected(2) [OF l] show "connected_after False (snd (exec new_service es))" .
next
  assume "\<forall>e \<in> set es. \<not> is_open e"
  then have "never_open (fst (exec new_service es))"
    by (intro never_open_exec) (simp_all add: never_open_def new_service_def)
  then have "\<not> isConnected (fst (exec new_service es))"
    by (rule never_open_not_connected)
  then show "send t p (fst (exec new_service es)) =
          (fst (exec new_service es), [ConsoleWarn ''WebSocket not connected, cannot send message''])"
    by (rule send_warns)
qed

theorem send_transmits_or_drops_witness:
  "isConnected opened
   \<and> send ''job:resume'' [''job_id'' \<mapsto> JStr ''J1''] opened =
       (opened, [SocketSend 0 [''type'' \<mapsto> JStr ''job:resume'', ''job_id'' \<mapsto> JStr ''J1'']])
   \<and> \<not> isConnected new_service
   \<and> send ''job:resume'' [''job_id'' \<mapsto> JStr ''J1''] new_service =
       (new_service, [ConsoleWarn ''WebSocket not connected, cannot send message''])
   \<and> \<not> list_ex synthetic_on_wire [Connect, SockOpen 0]
   \<and> no_overlap new_service [Connect, SockOpen 0]
   \<and> OPEN \<in> set (sockets opened)
   \<and> connected_after False (snd (exec new_service [Connect, SockOpen 0]))
   \<and> \<not> list_ex is_open [Connect, SockClose 0]
   \<and> send ''job:resume'' [''job_id'' \<mapsto> JStr ''J1''] failed_once =
       (failed_once, [ConsoleWarn ''WebSocket not connected, cannot send message''])"
proof -
  have c: "isConnected opened" "ws opened = Some 0" "\<not> isConnected new_service"
    by (simp_all add: opened_eq isConnected_def ws_readyState_def new_service_def)
  have o: "\<forall>e \<in> set [Connect, SockClose 0]. \<not> is_open e"
    "\<not> list_ex synthetic_on_wire [Connect, SockOpen 0]"
    by simp_all
  have n: "no_overlap new_service [Connect, SockOpen 0]" by code_simp
  have f: "spread [''type'' \<mapsto> JStr ''job:resume''] [''job_id'' \<mapsto> JStr ''J1''] =
      [''type'' \<mapsto> JStr ''job:resume'', ''job_id'' \<mapsto> JStr ''J1'']"
    by (simp add: spread_def)
  from send_transmits_or_drops [of opened "''job:resume''" "[''job_id'' \<mapsto> JStr ''J1'']" "[Connect, SockOpen 0]"] c f o n
  have 1: "send ''job:resume'' [''job_id'' \<mapsto> JStr ''J1''] opened =
       (opened, [SocketSend 0 [''type'' \<mapsto> JStr ''job:resume'', ''job_id'' \<mapsto> JStr ''J1'']])"
    and 4: "OPEN \<in> set (sockets opened)"
      "connected_after False (snd (exec new_service [Connect, SockOpen 0]))"
    unfolding opened_def by auto
  from send_transmits_or_drops [of new_service "''job:resume''" "[''job_id'' \<mapsto> JStr ''J1'']" "[Connect, SockClose 0]"] c o
  have 2: "send ''job:resume'' [''job_id'' \<mapsto> JStr ''J1''] new_service =
       (new_service, [ConsoleWarn ''WebSocket not connected, cannot send message''])"
    and 3: "send ''job:resume'' [''job_id'' \<mapsto> JStr ''J1''] failed_once =
       (failed_once, [ConsoleWarn ''WebSocket not connected, cannot send message''])"
    unfolding failed_once_def by blast+
  from c o n 1 2 3 4 show ?thesis by (simp add: list_ex_iff)
qed

subsection \<open>Disconnecting\<close>




section \<open>Properties of the notification poller\<close>

subsection \<open>The loop and the seen-set\<close>

lemma showNotification_seen:
  "notificationKey n \<in> set shown \<Longrightarrow> showNotification shown n = (shown, [])"
  by (simp add: showNotification_def)

lemma showNotification_new:
  "notificationKey n \<notin> set shown \<Longrightarrow>
     showNotification shown n = (keep_recent (shown @ [notificationKey n]), map (Pair n) (present n))"
  by (simp add: showNotification_def)

lemma present_toasted: "toasted n \<Longrightarrow> length (present n) = 1"
  by (auto simp: toasted_def present_def Let_def)

lemma for_notifications_fst:
  "fst (for_notifications shown (n # ns)) =
     (if toasted n then fst (for_notifications (fst (showNotification shown n)) ns)
      else fst (for_notifications shown ns))"
  by (simp add: toasted_def split: prod.splits)

lemma for_notifications_snd:
  "snd (for_notifications shown (n # ns)) =
     (if toasted n
      then snd (showNotification shown n) @ snd (for_notifications (fst (showNotification shown n)) ns)
      else snd (for_notifications shown ns))"
  by (simp add: toasted_def split: prod.splits)

lemma for_notifications_filter:
  "for_notifications shown ns = for_notifications shown (filter toasted ns)"
  by (induction ns arbitrary: shown) (auto simp: toasted_def split: prod.splits)

lemma for_notifications_append:
  "fst (for_notifications shown (a @ b)) = fst (for_notifications (fst (for_notifications shown a)) b)"
  "snd (for_notifications shown (a @ b)) =
     snd (for_notifications shown a) @ snd (for_notifications (fst (for_notifications shown a)) b)"
  by (induction a arbitrary: shown)
     (simp_all add: for_notifications_fst for_notifications_snd del: for_notifications.simps(2))

lemma pollNotifications_flat:
  "shownNotificationsRef (fst (pollNotifications p r)) =
     fst (for_notifications (shownNotificationsRef p) (notifications_of r))"
  "snd (pollNotifications p r) =
     snd (for_notifications (shownNotificationsRef p) (notifications_of r))"
  by (cases r; cases "notifications_of r";
      simp add: pollNotifications_def notifications_of_def split: prod.splits)+

lemma ticks_fst: "fst (ticks p (r # rs)) = fst (ticks (fst (pollNotifications p r)) rs)"
  by (simp split: prod.splits)

lemma ticks_snd:
  "snd (ticks p (r # rs)) = snd (pollNotifications p r) @ snd (ticks (fst (pollNotifications p r)) rs)"
  by (simp split: prod.splits)

lemma ticks_flat:
  "shownNotificationsRef (fst (ticks p rs)) =
     fst (for_notifications (shownNotificationsRef p) (concat (map notifications_of rs)))"
  "snd (ticks p rs) =
     snd (for_notifications (shownNotificationsRef p) (concat (map notifications_of rs)))"
  by (induction rs arbitrary: p)
     (simp_all add: ticks_fst ticks_snd pollNotifications_flat for_notifications_append
        del: ticks.simps(2))

lemma showNotification_bound:
  "length shown \<le> 100 \<Longrightarrow> length (fst (showNotification shown n)) \<le> 100"
  by (auto simp: showNotification_def keep_recent_def Let_def)

lemma show_all_bound:
  "length shown \<le> 100 \<Longrightarrow> length (show_all shown ns) \<le> 100"
  by (induction ns arbitrary: shown) (simp_all add: showNotification_bound)

lemma keep_recent_suffix: "\<exists>pre. arr = pre @ keep_recent arr"
  by (metis append_take_drop_id keep_recent_def append_Nil)

lemma showNotification_history:
  assumes "h = pre @ shown"
  shows "\<exists>pre'. h @ (if notificationKey n \<in> set shown then [] else [notificationKey n])
           = pre' @ fst (showNotification shown n)"
proof (cases "notificationKey n \<in> set shown")
  case True
  with assms show ?thesis by (simp add: showNotification_seen)
next
  case False
  obtain q where "shown @ [notificationKey n] = q @ keep_recent (shown @ [notificationKey n])"
    using keep_recent_suffix by blast
  then have "h @ [notificationKey n] = (pre @ q) @ keep_recent (shown @ [notificationKey n])"
    using assms by simp
  moreover from False have "fst (showNotification shown n) = keep_recent (shown @ [notificationKey n])"
    by (simp add: showNotification_new)
  ultimately show ?thesis
    using False by (simp only: if_False) blast
qed

lemma show_all_history:
  "h = pre @ shown \<Longrightarrow> \<exists>pre'. h @ insertions shown ns = pre' @ show_all shown ns"
proof (induction ns arbitrary: h pre shown)
  case Nil
  then show ?case by simp
next
  case (Cons n ns)
  from showNotification_history [OF Cons.prems, of n] obtain q
    where q: "h @ (if notificationKey n \<in> set shown then [] else [notificationKey n])
                = q @ fst (showNotification shown n)"
    by blast
  from Cons.IH [OF q] show ?case by simp
qed

lemma show_all_snoc: "show_all shown (ns @ [n]) = fst (showNotification (show_all shown ns) n)"
  by (induction ns arbitrary: shown) simp_all

lemma for_notifications_show_all:
  "fst (for_notifications shown ns) = show_all shown (filter toasted ns)"
  by (induction ns arbitrary: shown)
     (simp_all add: for_notifications_fst del: for_notifications.simps(2))

subsection \<open>Counting alerts\<close>

lemma alerts_for_append: "alerts_for k (a @ b) = alerts_for k a + alerts_for k b"
  by (simp add: alerts_for_def)

lemma alerts_for_Nil: "alerts_for k [] = 0"
  by (simp add: alerts_for_def)

lemma alerts_for_present:
  "toasted n \<Longrightarrow> alerts_for k (map (Pair n) (present n)) = (if notificationKey n = k then 1 else 0)"
  using present_toasted [of n] by (simp add: alerts_for_def filter_map comp_def)

lemma toasted_keys_Cons:
  "toasted_keys (n # ns) = (if toasted n then insert (notificationKey n) (toasted_keys ns) else toasted_keys ns)"
  by (auto simp: toasted_keys_def)

lemma finite_toasted_keys: "finite (toasted_keys ns)"
  by (simp add: toasted_keys_def)

lemma no_truncation_alerts:
  "distinct shown \<Longrightarrow> card (set shown \<union> toasted_keys ns) \<le> 100 \<Longrightarrow>
     alerts_for k (snd (for_notifications shown ns)) \<le> (if k \<in> set shown then 0 else 1)"
proof (induction ns arbitrary: shown)
  case Nil
  then show ?case by (simp add: alerts_for_Nil)
next
  case (Cons n ns)
  show ?case
  proof (cases "toasted n")
    case False
    with Cons show ?thesis
      by (simp add: for_notifications_snd toasted_keys_Cons del: for_notifications.simps(2))
  next
    case True
    show ?thesis
    proof (cases "notificationKey n \<in> set shown")
      case seen: True
      then have "set shown \<union> toasted_keys (n # ns) = set shown \<union> toasted_keys ns"
        using True by (auto simp: toasted_keys_Cons)
      with Cons seen True show ?thesis
        by (simp add: for_notifications_snd showNotification_seen alerts_for_Nil
            del: for_notifications.simps(2))
    next
      case new: False
      let ?k = "notificationKey n"
      have eq: "set (shown @ [?k]) \<union> toasted_keys ns = set shown \<union> toasted_keys (n # ns)"
        using True by (auto simp: toasted_keys_Cons)
      have "card (set (shown @ [?k])) \<le> card (set shown \<union> toasted_keys (n # ns))"
        by (rule card_mono) (use True in \<open>auto simp: toasted_keys_Cons finite_toasted_keys\<close>)
      moreover have "card (set (shown @ [?k])) = length (shown @ [?k])"
        using Cons.prems(1) new by (intro distinct_card) simp
      ultimately have "length (shown @ [?k]) \<le> 100"
        using Cons.prems(2) by simp
      then have kr: "keep_recent (shown @ [?k]) = shown @ [?k]"
        by (simp add: keep_recent_def)
      have ih: "alerts_for k (snd (for_notifications (shown @ [?k]) ns))
                  \<le> (if k \<in> set (shown @ [?k]) then 0 else 1)"
      proof (rule Cons.IH)
        show "distinct (shown @ [?k])" using Cons.prems(1) new by simp
        show "card (set (shown @ [?k]) \<union> toasted_keys ns) \<le> 100"
          unfolding eq by (rule Cons.prems(2))
      qed
      have "snd (for_notifications shown (n # ns)) =
              map (Pair n) (present n) @ snd (for_notifications (shown @ [?k]) ns)"
        using new True
        by (simp add: for_notifications_snd showNotification_new kr del: for_notifications.simps(2))
      then have "alerts_for k (snd (for_notifications shown (n # ns))) =
              (if ?k = k then 1 else 0) + alerts_for k (snd (for_notifications (shown @ [?k]) ns))"
        using True by (simp add: alerts_for_append alerts_for_present)
      with ih new show ?thesis
        by (cases "?k = k") auto
    qed
  qed
qed

lemma alerts_toasted:
  "a \<in> set (snd (for_notifications shown ns)) \<Longrightarrow> toasted (fst a)"
proof (induction ns arbitrary: shown)
  case Nil
  then show ?case by simp
next
  case (Cons n ns)
  show ?case
  proof (cases "toasted n")
    case False
    with Cons show ?thesis
      by (simp add: for_notifications_snd del: for_notifications.simps(2))
  next
    case True
    have "fst a = n" if "a \<in> set (snd (showNotification shown n))"
      using that by (auto simp: showNotification_def Let_def split: if_splits)
    with Cons True show ?thesis
      by (auto simp add: for_notifications_snd simp del: for_notifications.simps(2))
  qed
qed

subsection \<open>The sample family\<close>

lemma key_mk: "notificationKey (mk i) = ''error-'' @ replicate i (CHR ''x'') @ ''-''"
  by (simp add: notificationKey_def mk_def)

lemma key_mk_inj: "notificationKey (mk i) = notificationKey (mk j) \<longleftrightarrow> i = j"
proof
  assume "notificationKey (mk i) = notificationKey (mk j)"
  then have "length (notificationKey (mk i)) = length (notificationKey (mk j))" by simp
  then show "i = j" by (simp add: key_mk)
qed simp

lemma toasted_mk: "toasted (mk i)"
  by (simp add: toasted_def mk_def)

lemma notifications_of_tick_of: "concat (map notifications_of (map tick_of is)) = map mk is"
  by (induction "is") (simp_all add: notifications_of_def tick_of_def)

lemma fresh_run:
  "length shown + length is \<le> 100 \<Longrightarrow> distinct is \<Longrightarrow>
   \<forall>i \<in> set is. notificationKey (mk i) \<notin> set shown \<Longrightarrow>
     fst (for_notifications shown (map mk is)) = shown @ map (\<lambda>i. notificationKey (mk i)) is
     \<and> alerts_for (notificationKey (mk j)) (snd (for_notifications shown (map mk is)))
         = (if j \<in> set is then 1 else 0)"
proof (induction "is" arbitrary: shown)
  case Nil
  then show ?case by (simp add: alerts_for_Nil)
next
  case (Cons i "is")
  let ?k = "notificationKey (mk i)"
  from Cons.prems have new: "?k \<notin> set shown" and len: "length (shown @ [?k]) \<le> 100" by simp_all
  then have sn: "showNotification shown (mk i) = (shown @ [?k], map (Pair (mk i)) (present (mk i)))"
    by (simp add: showNotification_new keep_recent_def)
  have "fst (for_notifications (shown @ [?k]) (map mk is)) =
          (shown @ [?k]) @ map (\<lambda>i. notificationKey (mk i)) is
        \<and> alerts_for (notificationKey (mk j)) (snd (for_notifications (shown @ [?k]) (map mk is)))
         = (if j \<in> set is then 1 else 0)"
    using Cons.prems by (intro Cons.IH) (auto simp: key_mk_inj)
  with Cons.prems(2) show ?case
    by (auto simp add: for_notifications_fst for_notifications_snd toasted_mk sn alerts_for_append
          alerts_for_present key_mk_inj simp del: for_notifications.simps(2))
qed

lemma first_hundred:
  "fst (for_notifications [] (map mk [0..<100])) = map (\<lambda>i. notificationKey (mk i)) [0..<100]"
  "alerts_for (notificationKey (mk 0)) (snd (for_notifications [] (map mk [0..<100]))) = 1"
proof -
  have "length ([]::string list) + length [0..<100] \<le> 100" "distinct [0..<100]"
    "\<forall>i \<in> set [0..<100]. notificationKey (mk i) \<notin> set []" "0 \<in> set [0..<100]"
    by (simp_all del: upt.simps)
  from fresh_run [OF this(1,2,3), of 0] this(4)
  show "fst (for_notifications [] (map mk [0..<100])) = map (\<lambda>i. notificationKey (mk i)) [0..<100]"
  "alerts_for (notificationKey (mk 0)) (snd (for_notifications [] (map mk [0..<100]))) = 1"
    by (simp_all only: append_Nil if_True)
qed

lemma upt_101: "[0..<101] = [0..<100] @ [100::nat]"
proof -
  have "[0..<Suc 100] = [0..<100] @ [100::nat]"
    by (rule upt_Suc_append) simp
  moreover have "Suc 100 = 101" by simp
  ultimately show ?thesis by (simp only:)
qed

lemma hundred_first:
  "showNotification (map (\<lambda>i. notificationKey (mk i)) [0..<100]) (mk 100) =
     (map (\<lambda>i. notificationKey (mk i)) [51..<101], map (Pair (mk 100)) (present (mk 100)))"
proof -
  let ?f = "\<lambda>i. notificationKey (mk i)"
  have new: "notificationKey (mk 100) \<notin> set (map ?f [0..<100])"
    by (auto simp: key_mk_inj)
  have all: "map ?f [0..<100] @ [notificationKey (mk 100)] = map ?f [0..<101]"
    by (simp only: upt_101 map_append list.map)
  have len: "length (map ?f [0..<101]) = 101"
    by (simp only: length_map length_upt)
  have "drop 51 (map ?f [0..<101]) = map ?f [51..<101]"
    by (simp only: drop_map drop_upt) simp
  with len have kr: "keep_recent (map ?f [0..<101]) = map ?f [51..<101]"
    by (simp add: keep_recent_def del: upt.simps upt_rec_numeral)
  from new have "showNotification (map ?f [0..<100]) (mk 100) =
      (keep_recent (map ?f [0..<100] @ [notificationKey (mk 100)]), map (Pair (mk 100)) (present (mk 100)))"
    by (rule showNotification_new)
  then show ?thesis
    by (simp only: all kr)
qed

lemma after_eviction:
  "showNotification (map (\<lambda>i. notificationKey (mk i)) [51..<101]) (mk 0) =
     (keep_recent (map (\<lambda>i. notificationKey (mk i)) [51..<101] @ [notificationKey (mk 0)]),
      map (Pair (mk 0)) (present (mk 0)))"
proof -
  have "notificationKey (mk 0) \<notin> set (map (\<lambda>i. notificationKey (mk i)) [51..<101])"
    by (auto simp: key_mk_inj)
  then show ?thesis by (rule showNotification_new)
qed

subsection \<open>The claims\<close>

text \<open>
  C3. After any sequence of polls the seen-set has at most 100 members; it is the result of
  the \<open>showNotification\<close> calls on the notifications that pass the priority filter. After
  any sequence of \<open>showNotification\<close> calls it has at most 100 members, and a call that
  truncates it leaves exactly the 50 keys inserted last.
\<close>

theorem seen_set_bounded:
  "length (shownNotificationsRef (fst (ticks new_poller rs))) \<le> 100
   \<and> shownNotificationsRef (fst (ticks new_poller rs)) =
       show_all [] (filter toasted (concat (map notifications_of rs)))
   \<and> length (show_all [] ns) \<le> 100
   \<and> (notificationKey n \<notin> set (show_all [] ns)
        \<and> 100 < length (show_all [] ns @ [notificationKey n]) \<longrightarrow>
       length (show_all [] (ns @ [n])) = 50
       \<and> show_all [] (ns @ [n]) =
           drop (length (insertions [] (ns @ [n])) - 50) (insertions [] (ns @ [n])))"
proof (intro conjI impI)
  show "shownNotificationsRef (fst (ticks new_poller rs)) =
       show_all [] (filter toasted (concat (map notifications_of rs)))"
    by (simp add: ticks_flat for_notifications_show_all new_poller_def)
  then show "length (shownNotificationsRef (fst (ticks new_poller rs))) \<le> 100"
    by (simp add: show_all_bound)
  show b: "length (show_all [] ns) \<le> 100"
    by (simp add: show_all_bound)
  assume a: "notificationKey n \<notin> set (show_all [] ns)
        \<and> 100 < length (show_all [] ns @ [notificationKey n])"
  with b have len: "length (show_all [] ns) = 100" by simp
  from a have s: "show_all [] (ns @ [n]) = keep_recent (show_all [] ns @ [notificationKey n])"
    by (simp add: show_all_snoc showNotification_new)
  with len show l50: "length (show_all [] (ns @ [n])) = 50"
    by (simp add: keep_recent_def)
  obtain pre where "insertions [] (ns @ [n]) = pre @ show_all [] (ns @ [n])"
    using show_all_history [of "[]" "[]" "[]" "ns @ [n]"] by auto
  with l50 show "show_all [] (ns @ [n]) =
           drop (length (insertions [] (ns @ [n])) - 50) (insertions [] (ns @ [n]))"
    by simp
qed

theorem seen_set_bounded_witness:
  "notificationKey (mk 100) \<notin> set (show_all [] (map mk [0..<100]))
   \<and> 100 < length (show_all [] (map mk [0..<100]) @ [notificationKey (mk 100)])
   \<and> length (show_all [] (map mk [0..<100] @ [mk 100])) = 50
   \<and> show_all [] (map mk [0..<100] @ [mk 100]) =
       drop (length (insertions [] (map mk [0..<100] @ [mk 100])) - 50)
         (insertions [] (map mk [0..<100] @ [mk 100]))"
proof -
  have "filter toasted (map mk [0..<100]) = map mk [0..<100]"
    by (simp add: filter_map comp_def toasted_mk del: upt.simps upt_rec_numeral)
  then have s: "show_all [] (map mk [0..<100]) = map (\<lambda>i. notificationKey (mk i)) [0..<100]"
    using for_notifications_show_all [of "[]" "map mk [0..<100]"] by (simp only: first_hundred)
  have h: "notificationKey (mk 100) \<notin> set (show_all [] (map mk [0..<100]))
        \<and> 100 < length (show_all [] (map mk [0..<100]) @ [notificationKey (mk 100)])"
    unfolding s by (auto simp: key_mk_inj)
  with seen_set_bounded [of "[]" "map mk [0..<100]" "mk 100"] show ?thesis
    by blast
qed

text \<open>
  C2, as stated, fails: a key is forgotten when the seen-set is truncated. The first
  notification of the sample family is presented, a hundred others follow, and when the
  first arrives again it is presented a second time.
\<close>

theorem evicted_key_presented_again:
  "alerts_for (notificationKey (mk 0)) (snd (ticks new_poller evicted_ticks)) = 2"
proof -
  let ?k = "notificationKey (mk 0)"
  let ?s = "map (\<lambda>i. notificationKey (mk i)) [0..<100]"
  have "concat (map notifications_of evicted_ticks) = map mk (([0..<100] @ [100]) @ [0])"
    by (simp only: evicted_ticks_def notifications_of_tick_of upt_101)
  then have flat: "snd (ticks new_poller evicted_ticks) =
      snd (for_notifications [] (map mk [0..<100] @ [mk 100, mk 0]))"
    by (simp add: ticks_flat new_poller_def del: upt.simps)
  have tail: "alerts_for ?k (snd (for_notifications ?s [mk 100, mk 0])) = 1"
    by (simp add: for_notifications_snd toasted_mk hundred_first after_eviction alerts_for_append
          alerts_for_present key_mk_inj alerts_for_Nil
          del: for_notifications.simps(2) upt.simps upt_rec_numeral)
  show ?thesis
    unfolding flat for_notifications_append alerts_for_append first_hundred tail by simp
qed

text \<open>
  C2, amended. In every sequence of polls in which at most 100 different dedup keys occur
  among the high and urgent notifications, at most one alert is presented for each key.
\<close>

theorem one_alert_per_key:
  "card (toasted_keys (concat (map notifications_of rs))) \<le> 100 \<Longrightarrow>
     alerts_for k (snd (ticks new_poller rs)) \<le> 1"
  using no_truncation_alerts [of "[]" "concat (map notifications_of rs)" k]
  by (simp add: ticks_flat new_poller_def)

theorem one_alert_per_key_witness:
  "card (toasted_keys (concat (map notifications_of [tick_of 0, tick_of 0]))) \<le> 100
   \<and> alerts_for (notificationKey (mk 0)) (snd (ticks new_poller [tick_of 0, tick_of 0])) \<le> 1"
proof -
  have "toasted_keys (concat (map notifications_of [tick_of 0, tick_of 0])) = {notificationKey (mk 0)}"
  proof -
    have "toasted_keys [] = {}" by (simp add: toasted_keys_def)
    then show ?thesis
      by (simp add: notifications_of_def tick_of_def toasted_keys_Cons toasted_mk)
  qed
  then have h: "card (toasted_keys (concat (map notifications_of [tick_of 0, tick_of 0]))) \<le> 100"
    by simp
  from one_alert_per_key [OF h, of "notificationKey (mk 0)"] h show ?thesis
    by simp
qed

text \<open>
  C6. The notifications of priority \<open>normal\<close> or \<open>low\<close> can be deleted from a response
  without changing the seen-set or the alerts: the loop passes over them. Every alert is
  for a notification of priority \<open>high\<close> or \<open>urgent\<close>. A poll that returns a high error
  notification and a normal info notification presents the first, as an error, and
  inserts the key of the first only.
\<close>

theorem low_normal_filtered:
  "for_notifications shown ns = for_notifications shown (filter toasted ns)
   \<and> (priority n = low \<or> priority n = normal \<longrightarrow>
        \<not> toasted n \<and> for_notifications shown (n # ns) = for_notifications shown ns)
   \<and> (\<forall>a \<in> set (snd (for_notifications shown ns)).
        priority (fst a) = high \<or> priority (fst a) = urgent)
   \<and> (priority n1 = high \<and> type n1 = ''error'' \<and> priority n2 = normal \<and> type n2 = ''info'' \<longrightarrow>
        pollNotifications new_poller (Fetched [n1, n2]) =
          (\<lparr>lastSeenRef = Some (created_at n1), shownNotificationsRef = [notificationKey n1]\<rparr>,
           [(n1, Toast error_toast (title n1 @ '': '' @ message n1) 8000)]))"
proof (intro conjI impI ballI)
  show "for_notifications shown ns = for_notifications shown (filter toasted ns)"
    by (rule for_notifications_filter)
next
  assume "priority n = low \<or> priority n = normal"
  then show "\<not> toasted n" by (auto simp: toasted_def)
  then show "for_notifications shown (n # ns) = for_notifications shown ns"
    by (simp add: toasted_def)
next
  fix a assume "a \<in> set (snd (for_notifications shown ns))"
  then show "priority (fst a) = high \<or> priority (fst a) = urgent"
    using alerts_toasted [of a shown ns] by (simp add: toasted_def)
next
  assume "priority n1 = high \<and> type n1 = ''error'' \<and> priority n2 = normal \<and> type n2 = ''info''"
  then show "pollNotifications new_poller (Fetched [n1, n2]) =
          (\<lparr>lastSeenRef = Some (created_at n1), shownNotificationsRef = [notificationKey n1]\<rparr>,
           [(n1, Toast error_toast (title n1 @ '': '' @ message n1) 8000)])"
    by (simp add: pollNotifications_def new_poller_def showNotification_def keep_recent_def
          present_def Let_def)
qed

theorem low_normal_filtered_witness:
  "(priority info_note = low \<or> priority info_note = normal)
   \<and> for_notifications [] [info_note, absent_job] = for_notifications [] [absent_job]
   \<and> (absent_job, Toast error_toast ''Job failed: first'' 8000)
        \<in> set (snd (for_notifications [] [absent_job, info_note]))
   \<and> priority absent_job = high \<and> type absent_job = ''error''
   \<and> priority info_note = normal \<and> type info_note = ''info''
   \<and> pollNotifications new_poller (Fetched [absent_job, info_note]) =
        (\<lparr>lastSeenRef = Some ''2024-01-01T00:00:00'',
          shownNotificationsRef = [''error-2024-01-01T00:00:00-'']\<rparr>,
         [(absent_job, Toast error_toast ''Job failed: first'' 8000)])"
proof -
  have h: "priority info_note = low \<or> priority info_note = normal"
    "priority absent_job = high \<and> type absent_job = ''error''
       \<and> priority info_note = normal \<and> type info_note = ''info''"
    by (simp_all add: info_note_def absent_job_def)
  have m: "(absent_job, Toast error_toast ''Job failed: first'' 8000)
        \<in> set (snd (for_notifications [] [absent_job, info_note]))"
    by (simp add: absent_job_def info_note_def showNotification_def present_def Let_def
          keep_recent_def)
  from low_normal_filtered [of "[]" "[absent_job]" info_note absent_job info_note] h
  have "for_notifications [] [info_note, absent_job] = for_notifications [] [absent_job]"
    and "pollNotifications new_poller (Fetched [absent_job, info_note]) =
          (\<lparr>lastSeenRef = Some (created_at absent_job),
            shownNotificationsRef = [notificationKey absent_job]\<rparr>,
           [(absent_job, Toast error_toast (title absent_job @ '': '' @ message absent_job) 8000)])"
    by blast+
  moreover have "created_at absent_job = ''2024-01-01T00:00:00''"
    "notificationKey absent_job = ''error-2024-01-01T00:00:00-''"
    "title absent_job @ '': '' @ message absent_job = ''Job failed: first''"
    by (simp_all add: absent_job_def notificationKey_def)
  ultimately show ?thesis using h m by simp
qed

text \<open>
  C10. The dedup key is not injective on (type, created_at, job_id): an absent and an
  empty \<open>job_id\<close> give the same key, and so do fields that contain the separator. Of two
  such notifications in one poll only the first is presented.
\<close>

theorem key_not_injective:
  "(type absent_job, created_at absent_job, job_id absent_job)
     \<noteq> (type empty_job, created_at empty_job, job_id empty_job)
   \<and> notificationKey absent_job = notificationKey empty_job
   \<and> (type dash_in_type, created_at dash_in_type, job_id dash_in_type)
     \<noteq> (type dash_in_created_at, created_at dash_in_created_at, job_id dash_in_created_at)
   \<and> notificationKey dash_in_type = notificationKey dash_in_created_at
   \<and> snd (pollNotifications new_poller (Fetched [absent_job, empty_job])) =
       [(absent_job, Toast error_toast ''Job failed: first'' 8000)]
   \<and> snd (pollNotifications new_poller (Fetched [dash_in_type, dash_in_created_at])) =
       [(dash_in_type, Toast warning_icon ''x: y'' 6000)]"
  by (simp add: absent_job_def empty_job_def dash_in_type_def dash_in_created_at_def
        notificationKey_def pollNotifications_def new_poller_def showNotification_def
        keep_recent_def present_def Let_def)

section \<open>Properties of the job store\<close>

text \<open>
  C9. \<open>updateJobStatus\<close> sets the status of every job with the given id and of the selected
  job, if it has that id, to the given value; putting the old status back gives the old
  job, so no other field has changed. Every other job, the selected job with another id,
  and the rest of the store are as before.
\<close>

theorem updateJobStatus_frame:
  "length (jobs (updateJobStatus i st s)) = length (jobs s)
   \<and> (\<forall>k < length (jobs s).
        (id' (jobs s ! k) = i \<longrightarrow>
           jobs (updateJobStatus i st s) ! k = (jobs s ! k)\<lparr>status := st\<rparr>
           \<and> status (jobs (updateJobStatus i st s) ! k) = st
           \<and> (jobs (updateJobStatus i st s) ! k)\<lparr>status := status (jobs s ! k)\<rparr> = jobs s ! k)
        \<and> (id' (jobs s ! k) \<noteq> i \<longrightarrow> jobs (updateJobStatus i st s) ! k = jobs s ! k))
   \<and> selectedJob (updateJobStatus i st s) =
        map_option (\<lambda>sj. if id' sj = i then sj\<lparr>status := st\<rparr> else sj) (selectedJob s)
   \<and> isLoading (updateJobStatus i st s) = isLoading s
   \<and> error (updateJobStatus i st s) = error s
   \<and> pagination (updateJobStatus i st s) = pagination s
   \<and> filters (updateJobStatus i st s) = filters s"
  by (simp add: updateJobStatus_def split: option.splits)

theorem updateJobStatus_frame_witness:
  "(0::nat) < length (jobs store2) \<and> id' (jobs store2 ! 0) = ''J1''
   \<and> jobs (updateJobStatus ''J1'' ''applied'' store2) ! 0 = job_J1\<lparr>status := ''applied''\<rparr>
   \<and> (1::nat) < length (jobs store2) \<and> id' (jobs store2 ! 1) \<noteq> ''J1''
   \<and> jobs (updateJobStatus ''J1'' ''applied'' store2) ! 1 = job_J2
   \<and> selectedJob (updateJobStatus ''J1'' ''applied'' store2) =
        Some (selected_J1\<lparr>status := ''applied''\<rparr>)"
proof -
  have h: "(0::nat) < length (jobs store2)" "id' (jobs store2 ! 0) = ''J1''"
    "(1::nat) < length (jobs store2)" "id' (jobs store2 ! 1) \<noteq> ''J1''"
    "jobs store2 ! 0 = job_J1" "jobs store2 ! 1 = job_J2"
    by (simp_all add: store2_def job_J1_def job_J2_def)
  have sel: "selectedJob store2 = Some selected_J1" "id' selected_J1 = ''J1''"
    by (simp_all add: store2_def selected_J1_def job_J1_def Job.defs)
  from updateJobStatus_frame [of "''J1''" "''applied''" store2]
  have a: "\<forall>k < length (jobs store2).
        (id' (jobs store2 ! k) = ''J1'' \<longrightarrow>
           jobs (updateJobStatus ''J1'' ''applied'' store2) ! k = (jobs store2 ! k)\<lparr>status := ''applied''\<rparr>)
        \<and> (id' (jobs store2 ! k) \<noteq> ''J1'' \<longrightarrow>
           jobs (updateJobStatus ''J1'' ''applied'' store2) ! k = jobs store2 ! k)"
    and b: "selectedJob (updateJobStatus ''J1'' ''applied'' store2) =
        map_option (\<lambda>sj. if id' sj = ''J1'' then sj\<lparr>status := ''applied''\<rparr> else sj) (selectedJob store2)"
    by blast+
  from a h have "jobs (updateJobStatus ''J1'' ''applied'' store2) ! 0 = job_J1\<lparr>status := ''applied''\<rparr>"
    "jobs (updateJobStatus ''J1'' ''applied'' store2) ! 1 = job_J2"
    by metis+
  with h b sel show ?thesis by simp
qed

end
